theory Spec2Isabelle
  imports Complex_Main "HOL-Library.Word" "HOL-Library.Char_ord" "HOL-Library.List_Lexorder"
begin

section \<open>Errors\<close>

text \<open>
  Exceptions and failed assertions of the C++ code are values.  \<open>InvalidPath\<close> is the
  \<open>std::invalid_argument\<close> of the path parser, \<open>AttributeCycle\<close> the
  \<open>std::runtime_error\<close> of the topological sort (it carries the dependency entries its
  message lists), \<open>MissingAncestorValue\<close> the \<open>std::runtime_error\<close> of
  \<open>AncestorValues::get\<close>, \<open>UnknownTemplate\<close> the \<open>std::invalid_argument\<close> of
  \<open>Node::try_make_template\<close>, \<open>OutOfRange\<close> the \<open>std::out_of_range\<close> of \<open>at()\<close>,
  \<open>AssertionFailed\<close> a failed \<open>assert\<close>, \<open>NotADag\<close> the \<open>boost::not_a_dag\<close> of
  \<open>boost::topological_sort\<close>.  \<open>OutOfFuel\<close> belongs to the model only: it is the
  result of a recursion whose depth bound ran out.
\<close>

datatype error =
    InvalidPath
  | AttributeCycle "(string \<times> string option) list"
  | MissingAncestorValue string
  | UnknownTemplate string
  | OutOfRange
  | AssertionFailed
  | NotADag
  | OutOfFuel

text \<open>
  Two helpers for code that may throw: \<open>all_ok\<close> collects the results of a list of
  computations up to the first error, \<open>fold_err\<close> runs a loop body over a list, threading
  the state, up to the first error.
\<close>

fun all_ok :: "(error + 'a) list \<Rightarrow> error + 'a list" where
  "all_ok [] = Inr []"
| "all_ok (Inl e # rest) = Inl e"
| "all_ok (Inr a # rest) = (case all_ok rest of Inl e \<Rightarrow> Inl e | Inr as \<Rightarrow> Inr (a # as))"

fun fold_err :: "('a \<Rightarrow> 's \<Rightarrow> error + 's) \<Rightarrow> 'a list \<Rightarrow> 's \<Rightarrow> error + 's" where
  "fold_err f [] s = Inr s"
| "fold_err f (x # xs) s = (case f x s of Inl e \<Rightarrow> Inl e | Inr s' \<Rightarrow> fold_err f xs s')"

section \<open>Floating point values\<close>

text \<open>
  A C++ \<open>float\<close> is a finite number, an infinity or NaN.  \<open>Fin r\<close> carries the real
  number the float denotes; rounding, overflow of finite results, subnormal numbers and
  the sign of zero are abstracted away.  Comparisons with NaN are false, as in IEEE 754.
\<close>

datatype float = Fin real | PInf | NInf | NaN

fun isnan :: "float \<Rightarrow> bool" where
  "isnan NaN = True"
| "isnan _ = False"

fun isfinite :: "float \<Rightarrow> bool" where
  "isfinite (Fin _) = True"
| "isfinite _ = False"

fun isnormal :: "float \<Rightarrow> bool" where
  "isnormal (Fin r) = (r \<noteq> 0)"
| "isnormal _ = False"

fun feq :: "float \<Rightarrow> float \<Rightarrow> bool" where
  "feq NaN _ = False"
| "feq _ NaN = False"
| "feq a b = (a = b)"

fun flt :: "float \<Rightarrow> float \<Rightarrow> bool" where
  "flt NaN _ = False"
| "flt _ NaN = False"
| "flt (Fin a) (Fin b) = (a < b)"
| "flt NInf b = (b \<noteq> NInf)"
| "flt a PInf = (a \<noteq> PInf)"
| "flt _ _ = False"

definition fgt :: "float \<Rightarrow> float \<Rightarrow> bool" where
  "fgt a b = flt b a"

fun fneg :: "float \<Rightarrow> float" where
  "fneg (Fin a) = Fin (- a)"
| "fneg PInf = NInf"
| "fneg NInf = PInf"
| "fneg NaN = NaN"

fun fabs :: "float \<Rightarrow> float" where
  "fabs (Fin a) = Fin \<bar>a\<bar>"
| "fabs PInf = PInf"
| "fabs NInf = PInf"
| "fabs NaN = NaN"

fun fadd :: "float \<Rightarrow> float \<Rightarrow> float" where
  "fadd NaN _ = NaN"
| "fadd _ NaN = NaN"
| "fadd (Fin a) (Fin b) = Fin (a + b)"
| "fadd (Fin a) i = i"
| "fadd i (Fin b) = i"
| "fadd i j = (if i = j then i else NaN)"

definition fsub :: "float \<Rightarrow> float \<Rightarrow> float" where
  "fsub a b = fadd a (fneg b)"

fun fmul :: "float \<Rightarrow> float \<Rightarrow> float" where
  "fmul NaN _ = NaN"
| "fmul _ NaN = NaN"
| "fmul (Fin a) (Fin b) = Fin (a * b)"
| "fmul (Fin a) i = (if a = 0 then NaN else if 0 < a then i else fneg i)"
| "fmul i (Fin b) = (if b = 0 then NaN else if 0 < b then i else fneg i)"
| "fmul i j = (if i = j then PInf else NInf)"

fun fdiv :: "float \<Rightarrow> float \<Rightarrow> float" where
  "fdiv NaN _ = NaN"
| "fdiv _ NaN = NaN"
| "fdiv (Fin a) (Fin b) =
     (if b = 0 then (if a = 0 then NaN else if 0 < a then PInf else NInf) else Fin (a / b))"
| "fdiv (Fin a) i = Fin 0"
| "fdiv i (Fin b) = (if 0 \<le> b then i else fneg i)"
| "fdiv i j = NaN"

text \<open>\<open>std::min(a, b)\<close> is \<open>(b < a) ? b : a\<close> and \<open>std::max(a, b)\<close> is \<open>(a < b) ? b : a\<close>.\<close>

definition std_min :: "float \<Rightarrow> float \<Rightarrow> float" where
  "std_min a b = (if flt b a then b else a)"

definition std_max :: "float \<Rightarrow> float \<Rightarrow> float" where
  "std_max a b = (if flt a b then b else a)"

section \<open>Points (coords.hpp)\<close>

datatype point = Point (px: float) (py: float) (pz: float)

definition Point0 :: point where
  "Point0 = Point (Fin 0) (Fin 0) (Fin 0)"

fun point_add :: "point \<Rightarrow> point \<Rightarrow> point" where
  "point_add (Point a b c) (Point d e f) = Point (fadd a d) (fadd b e) (fadd c f)"

fun point_sub :: "point \<Rightarrow> point \<Rightarrow> point" where
  "point_sub (Point a b c) (Point d e f) = Point (fsub a d) (fsub b e) (fsub c f)"

fun point_scale :: "point \<Rightarrow> float \<Rightarrow> point" where
  "point_scale (Point a b c) k = Point (fmul a k) (fmul b k) (fmul c k)"

fun point_eq :: "point \<Rightarrow> point \<Rightarrow> bool" where
  "point_eq (Point a b c) (Point d e f) = (feq a d \<and> feq b e \<and> feq c f)"

fun point_is_nan :: "point \<Rightarrow> bool" where
  "point_is_nan (Point a b c) = (isnan a \<or> isnan b \<or> isnan c)"

section \<open>Bounds (bounds.hpp, bounds.cpp)\<close>

datatype bounds = Bounds (base: point) (end_pt: point)

definition Bounds0 :: bounds where
  "Bounds0 = Bounds Point0 Point0"

definition bounds_eq :: "bounds \<Rightarrow> bounds \<Rightarrow> bool" where
  "bounds_eq a b = (point_eq (base a) (base b) \<and> point_eq (end_pt a) (end_pt b))"

definition bounds_is_nan :: "bounds \<Rightarrow> bool" where
  "bounds_is_nan a = (point_is_nan (base a) \<or> point_is_nan (end_pt a))"

text \<open>\<open>Bounds::operator+=(const Bounds&)\<close>, and \<open>operator+\<close> which copies and calls it.\<close>

definition bounds_plus :: "bounds \<Rightarrow> bounds \<Rightarrow> bounds" where
  "bounds_plus a other =
     (if point_eq (base a) Point0 \<and> point_eq (end_pt a) Point0 then other
      else
        Bounds
          (Point
            (if fgt (px (base a)) (px (base other)) then px (base other) else px (base a))
            (if fgt (py (base a)) (py (base other)) then py (base other) else py (base a))
            (if fgt (pz (base a)) (pz (base other)) then pz (base other) else pz (base a)))
          (Point
            (if fgt (px (end_pt a)) (px (end_pt other)) then px (end_pt a) else px (end_pt other))
            (if fgt (py (end_pt a)) (py (end_pt other)) then py (end_pt a) else py (end_pt other))
            (if fgt (pz (end_pt a)) (pz (end_pt other)) then pz (end_pt a) else pz (end_pt other))))"

definition bounds_offset :: "bounds \<Rightarrow> point \<Rightarrow> bounds" where
  "bounds_offset a p = Bounds (point_add (base a) p) (point_add (end_pt a) p)"

definition bounds_scale :: "bounds \<Rightarrow> float \<Rightarrow> bounds" where
  "bounds_scale a k = Bounds (point_scale (base a) k) (point_scale (end_pt a) k)"

definition bounds_lengths :: "bounds \<Rightarrow> float \<times> float \<times> float" where
  "bounds_lengths a =
     (let d = point_sub (end_pt a) (base a) in (fabs (px d), fabs (py d), fabs (pz d)))"

definition bounds_center :: "bounds \<Rightarrow> point" where
  "bounds_center a =
     (case bounds_lengths a of (w, h, d) \<Rightarrow>
        point_add (base a) (Point (fdiv w (Fin 2)) (fdiv h (Fin 2)) (fdiv d (Fin 2))))"

definition bottom_left :: "bounds \<Rightarrow> point" where
  "bottom_left a = base a"

definition strip_pos :: "bounds \<Rightarrow> bounds" where
  "strip_pos a = (case bounds_lengths a of (w, h, d) \<Rightarrow> Bounds Point0 (Point w h d))"

section \<open>Value types (value_types.hpp, color.hpp, rotation.hpp)\<close>

datatype axis = AxisX | AxisY | AxisZ

datatype alignment = AlignLeft | AlignCenter | AlignRight

text \<open>\<open>color::RGBA\<close>: four \<open>unsigned char\<close> channels r, g, b, a.\<close>

datatype rgba = RGBA "8 word" "8 word" "8 word" "8 word"

definition default_color :: rgba where
  "default_color = RGBA 0 0 0 255"

text \<open>\<open>Rotation\<close> holds a 3x3 matrix of floats, here row by row.\<close>

datatype rotation =
  Rotation float float float float float float float float float

text \<open>\<open>Rotation::rotate_coord(around_pt, pt)\<close>; the product is matrix times column vector.\<close>

fun mat_mul_point :: "rotation \<Rightarrow> point \<Rightarrow> point" where
  "mat_mul_point (Rotation a00 a01 a02 a10 a11 a12 a20 a21 a22) (Point u v w) =
     Point (fadd (fadd (fmul a00 u) (fmul a01 v)) (fmul a02 w))
           (fadd (fadd (fmul a10 u) (fmul a11 v)) (fmul a12 w))
           (fadd (fadd (fmul a20 u) (fmul a21 v)) (fmul a22 w))"

definition rotate_coord :: "rotation \<Rightarrow> point \<Rightarrow> point \<Rightarrow> point" where
  "rotate_coord rot around_pt pt =
     (let translated_pt = point_sub pt around_pt;
          rotated_translated_pt = mat_mul_point rot translated_pt
      in point_add around_pt rotated_translated_pt)"

text \<open>\<open>Bounds::rotate_around\<close>.\<close>

definition bounds_rotate_around :: "bounds \<Rightarrow> point \<Rightarrow> rotation \<Rightarrow> bounds" where
  "bounds_rotate_around a rotation_pt rot =
     (let calc_base = rotate_coord rot rotation_pt (base a);
          calc_end = rotate_coord rot rotation_pt (end_pt a)
      in Bounds
           (Point (std_min (px calc_base) (px calc_end))
                  (std_min (py calc_base) (py calc_end))
                  (std_min (pz calc_base) (pz calc_end)))
           (Point (std_max (px calc_base) (px calc_end))
                  (std_max (py calc_base) (py calc_end))
                  (std_max (pz calc_base) (pz calc_end))))"

section \<open>Attribute values (value.hpp, value.cpp)\<close>

text \<open>\<open>TypedValue<Type>\<close>: name and abbreviation of \<open>AbstractValue\<close>, value, defaulted flag.\<close>

record 'a typed_value =
  m_value_name :: string
  m_abbreviation :: string
  m_value :: 'a
  m_defaulted :: bool

text \<open>\<open>RelativeFloatValue = RelativeFloatTypeValue<float>\<close>, a \<open>FloatValue\<close> with three more fields.\<close>

record relative_float_value = "float typed_value" +
  m_multiplier :: float
  m_is_percentage :: bool
  m_relative_name :: "string option"

definition is_relative :: "relative_float_value \<Rightarrow> bool" where
  "is_relative v = (m_relative_name v \<noteq> None)"

text \<open>The alternatives of the \<open>std::variant\<close> stored in \<open>AncestorValues\<close>.\<close>

datatype value_variant =
    VFloat "float typed_value"
  | VUnitInterval "float typed_value"
  | VBool "bool typed_value"
  | VInt "32 word typed_value"
  | VString "string typed_value"
  | VColor "rgba typed_value"
  | VRotation "rotation typed_value"
  | VAxis "axis typed_value"
  | VAlignment "alignment typed_value"

text \<open>
  \<open>AncestorValues::m_ancestor_values\<close> is a \<open>std::map\<close> from the value's name to the
  variant; the list holds its entries in iteration order.
\<close>

type_synonym ancestor_values = "(string \<times> value_variant) list"

text \<open>
  \<open>AncestorValues::get_float\<close>: the first entry holding a \<open>FloatValue\<close> whose name or
  abbreviation is the requested name; a \<open>std::runtime_error\<close> when there is none.
\<close>

fun get_float :: "ancestor_values \<Rightarrow> string \<Rightarrow> error + float" where
  "get_float [] name = Inl (MissingAncestorValue name)"
| "get_float ((value_name, VFloat value_wrapper) # rest) name =
     (if m_value_name value_wrapper = name \<or> m_abbreviation value_wrapper = name
      then Inr (m_value value_wrapper)
      else get_float rest name)"
| "get_float (_ # rest) name = get_float rest name"

text \<open>
  \<open>RelativeFloatTypeValue<float>::compute_relative_value\<close>.  \<open>relative_name()\<close> is read
  only when \<open>is_relative()\<close> holds.
\<close>

definition compute_relative_value :: "relative_float_value \<Rightarrow> ancestor_values \<Rightarrow> error + float" where
  "compute_relative_value v known_values =
     (case (if \<not> is_relative v
            then Inr (if m_is_percentage v then m_multiplier v else fmul (m_value v) (m_multiplier v))
            else (case get_float known_values (the (m_relative_name v)) of
                    Inl e \<Rightarrow> Inl e
                  | Inr r \<Rightarrow> Inr (fmul r (m_multiplier v)))) of
        Inl e \<Rightarrow> Inl e
      | Inr val \<Rightarrow>
          (if m_is_percentage v
           then (case get_float known_values (m_value_name v) of
                   Inl e \<Rightarrow> Inl e
                 | Inr ancestor_value \<Rightarrow> Inr (fmul ancestor_value (fdiv val (Fin 100))))
           else Inr val))"

section \<open>Scale feature set (feature.hpp, feature.cpp)\<close>

text \<open>\<open>ScaleFeatureSet\<close> is a \<open>SizeFeature\<close> (width, height, depth) and an \<open>AxisFeature\<close>.\<close>

record scale_feature_set =
  m_width :: relative_float_value
  m_height :: relative_float_value
  m_depth :: relative_float_value
  m_axis :: "axis typed_value"

text \<open>\<open>std::min\<close> of an initializer list of three: the leftmost smallest element.\<close>

definition std_min3 :: "float \<Rightarrow> float \<Rightarrow> float \<Rightarrow> float" where
  "std_min3 a b c = (let m = (if flt b a then b else a) in if flt c m then c else m)"

text \<open>
  \<open>ScaleFeatureSet::compute_scale_factor\<close>.  A failed \<open>assert\<close> is the error
  \<open>AssertionFailed\<close>.  The width factor tests \<open>std::isnormal(depth)\<close>, as the source does.
\<close>

definition compute_scale_factor :: "scale_feature_set \<Rightarrow> float \<Rightarrow> float \<Rightarrow> float \<Rightarrow> error + float" where
  "compute_scale_factor s width height depth =
     (if isnan width \<or> isnan height \<or> isnan depth then Inl AssertionFailed
      else
        let unconstrained_width = m_defaulted (m_width s);
            unconstrained_height = m_defaulted (m_height s);
            unconstrained_depth = m_defaulted (m_depth s)
        in
        if unconstrained_width \<and> unconstrained_height \<and> unconstrained_depth then Inr (Fin 1)
        else
          let target_width = m_value (m_width s);
              target_height = m_value (m_height s);
              target_depth = m_value (m_depth s);
              width_factor =
                (if unconstrained_width \<or> \<not> isnormal depth then PInf else fdiv target_width width);
              height_factor =
                (if unconstrained_height \<or> \<not> isnormal height then PInf else fdiv target_height height);
              depth_factor =
                (if unconstrained_depth \<or> \<not> isnormal depth then PInf else fdiv target_depth depth)
          in
          if isnan width_factor \<or> isnan height_factor \<or> isnan depth_factor then Inl AssertionFailed
          else if m_defaulted (m_axis s) then
            (let calc_factor = std_min3 width_factor height_factor depth_factor
             in Inr (if feq calc_factor PInf then Fin 1 else calc_factor))
          else
            (let factor = (case m_value (m_axis s) of
                             AxisX \<Rightarrow> width_factor
                           | AxisY \<Rightarrow> height_factor
                           | AxisZ \<Rightarrow> depth_factor)
             in if isnormal factor then Inr factor else Inl AssertionFailed))"

section \<open>Geometry (geometry.hpp, geometry.cpp)\<close>

text \<open>A \<open>Face\<close> is a tuple of three \<open>unsigned int\<close> indices into the vertexes.\<close>

type_synonym face = "32 word \<times> 32 word \<times> 32 word"

record geometry =
  m_vertexes :: "point list"
  m_triangles :: "face list"
  m_bounds :: bounds
  m_pos :: point
  m_color :: rgba
  m_hide_distance :: float
  m_show_distance :: float
  m_text :: string

text \<open>\<open>Geometry::compute_bounds\<close>: the loop body, then the function.\<close>

fun compute_bounds_step :: "point \<Rightarrow> point \<times> point \<Rightarrow> point \<times> point" where
  "compute_bounds_step pt (Point min_x min_y min_z, Point max_x max_y max_z) =
     (Point (if flt (px pt) min_x then px pt else min_x)
            (if flt (py pt) min_y then py pt else min_y)
            (if flt (pz pt) min_z then pz pt else min_z),
      Point (if fgt (px pt) max_x then px pt else max_x)
            (if fgt (py pt) max_y then py pt else max_y)
            (if fgt (pz pt) max_z then pz pt else max_z))"

definition compute_bounds :: "point list \<Rightarrow> bounds" where
  "compute_bounds vertexes =
     (if vertexes = [] then Bounds0
      else (case fold compute_bounds_step vertexes (Point PInf PInf PInf, Point NInf NInf NInf) of
              (min_pt, max_pt) \<Rightarrow> Bounds min_pt max_pt))"

text \<open>The constructor \<open>Geometry(vertexes, triangles, pos, color, hide, show, text)\<close>.\<close>

definition Geometry ::
  "point list \<Rightarrow> face list \<Rightarrow> point \<Rightarrow> rgba \<Rightarrow> float \<Rightarrow> float \<Rightarrow> string \<Rightarrow> geometry" where
  "Geometry vertexes triangles pos color hide_distance show_distance text =
     \<lparr> m_vertexes = vertexes, m_triangles = triangles, m_bounds = compute_bounds vertexes,
       m_pos = pos, m_color = color, m_hide_distance = hide_distance,
       m_show_distance = show_distance, m_text = text \<rparr>"

text \<open>\<open>Geometry::empty(pos, bounds)\<close> with the default color and no text.\<close>

definition geometry_empty :: "point \<Rightarrow> bounds \<Rightarrow> geometry" where
  "geometry_empty pos b = (Geometry [] [] pos default_color (Fin 0) PInf [])\<lparr> m_bounds := b \<rparr>"

definition should_draw :: "geometry \<Rightarrow> bool" where
  "should_draw g = (m_vertexes g \<noteq> [])"

definition positioned_bounds :: "geometry \<Rightarrow> bounds" where
  "positioned_bounds g =
     Bounds (point_add (base (m_bounds g)) (m_pos g)) (point_add (end_pt (m_bounds g)) (m_pos g))"

definition offset_pos :: "point \<Rightarrow> geometry \<Rightarrow> geometry" where
  "offset_pos by_pos g = g\<lparr> m_pos := point_add (m_pos g) by_pos \<rparr>"

definition scale_by :: "float \<Rightarrow> geometry \<Rightarrow> geometry" where
  "scale_by factor g =
     g\<lparr> m_pos := point_scale (m_pos g) factor,
        m_vertexes := map (\<lambda>vertex. point_scale vertex factor) (m_vertexes g),
        m_bounds := bounds_scale (m_bounds g) factor,
        m_show_distance := fmul (m_show_distance g) factor,
        m_hide_distance := fmul (m_hide_distance g) factor \<rparr>"

definition geometry_rotate_around :: "point \<Rightarrow> rotation \<Rightarrow> geometry \<Rightarrow> geometry" where
  "geometry_rotate_around rotation_pt new_rotation g =
     g\<lparr> m_pos := rotate_coord new_rotation rotation_pt (m_pos g),
        m_bounds := bounds_rotate_around (m_bounds g) rotation_pt new_rotation,
        m_vertexes := map (rotate_coord new_rotation rotation_pt) (m_vertexes g) \<rparr>"

text \<open>
  \<open>Geometry::combine_with\<close>.  The index of a triangle of \<open>other\<close> is widened to
  \<open>size_t\<close>, added to \<open>vertexes_size\<close> and narrowed to \<open>unsigned int\<close> again when the new
  face is built: the sum modulo \<open>2 ^ 32\<close>.
\<close>

definition shift_index :: "nat \<Rightarrow> 32 word \<Rightarrow> 32 word" where
  "shift_index vertexes_size i = word_of_nat (unat i + vertexes_size)"

definition combine_with :: "geometry \<Rightarrow> geometry \<Rightarrow> geometry" where
  "combine_with g other =
     (let new_pos = base (bounds_plus (positioned_bounds g) (positioned_bounds other));
          offset_pos = point_sub (m_pos g) new_pos;
          other_offset_pos = point_sub (m_pos other) new_pos;
          vertexes_size = length (m_vertexes g);
          new_vertexes =
            map (\<lambda>vertex. point_add vertex offset_pos) (m_vertexes g) @
            map (\<lambda>other_vertex. point_add other_vertex other_offset_pos) (m_vertexes other);
          new_triangles =
            m_triangles g @
            map (\<lambda>(i, j, k). (shift_index vertexes_size i, shift_index vertexes_size j,
                               shift_index vertexes_size k))
              (m_triangles other)
      in Geometry new_vertexes new_triangles new_pos (m_color g) (m_hide_distance g)
           (m_show_distance g) (m_text g))"

text \<open>Every index of every triangle is below \<open>n\<close>.\<close>

definition triangles_below :: "nat \<Rightarrow> face list \<Rightarrow> bool" where
  "triangles_below n triangles =
     list_all (\<lambda>(i, j, k). unat i < n \<and> unat j < n \<and> unat k < n) triangles"

section \<open>Paths (path.hpp, path.cpp)\<close>

text \<open>
  \<open>Path(std::vector<std::string>)\<close> and \<open>Path(std::initializer_list<std::string>)\<close> store
  the parts they are given: they are the constructor \<open>Path\<close>.
\<close>

datatype path = Path (parts: "string list")

text \<open>
  \<open>is_valid_path_part\<close>: \<open>std::regex_match\<close> of the whole part against
  \<open>^[a-zA-Z0-9:_-]+$\<close>, that is one or more characters of the class.
\<close>

definition valid_path_char :: "char \<Rightarrow> bool" where
  "valid_path_char c =
     (let n = (of_char c :: nat)
      in (97 \<le> n \<and> n \<le> 122) \<or> (65 \<le> n \<and> n \<le> 90) \<or> (48 \<le> n \<and> n \<le> 57)
         \<or> c = CHR '':'' \<or> c = CHR ''_'' \<or> c = CHR ''-'')"

definition is_valid_path_part :: "string \<Rightarrow> bool" where
  "is_valid_path_part part = (part \<noteq> [] \<and> list_all valid_path_char part)"

text \<open>
  The loop of \<open>Path::Path(const std::string&)\<close> on the text from \<open>prev_pos\<close> on: while
  there is a dot, the text before it is a part; the text after the last dot is the last
  part.  Both throws are \<open>std::invalid_argument\<close>.
\<close>

function parse_parts :: "string \<Rightarrow> string list \<Rightarrow> error + string list" where
  "parse_parts rest acc =
     (if CHR ''.'' \<in> set rest then
        (let part = takeWhile (\<lambda>c. c \<noteq> CHR ''.'') rest
         in if part = [] then Inl InvalidPath
            else if \<not> is_valid_path_part part then Inl InvalidPath
            else parse_parts (drop (Suc (length part)) rest) (acc @ [part]))
      else if \<not> is_valid_path_part rest then Inl InvalidPath
      else Inr (acc @ [rest]))"
  by pat_completeness auto
termination
  by (relation "measure (\<lambda>(rest, acc). length rest)")
    (auto simp: length_pos_if_in_set intro!: diff_less)

declare parse_parts.simps [simp del]

definition path_of_string :: "string \<Rightarrow> error + path" where
  "path_of_string dot_string =
     (if dot_string = [] \<or> dot_string = ''.'' then Inr (Path [])
      else (case parse_parts (if hd dot_string = CHR ''.'' then drop 1 dot_string else dot_string) [] of
              Inl e \<Rightarrow> Inl e
            | Inr ps \<Rightarrow> Inr (Path ps)))"

definition path_size :: "path \<Rightarrow> nat" where
  "path_size p = length (parts p)"

text \<open>\<open>Path::operator+(const std::string&)\<close>.\<close>

definition path_append :: "path \<Rightarrow> string \<Rightarrow> path" where
  "path_append p part = Path (parts p @ [part])"

text \<open>\<open>Path::is_descendant_of(other, or_are_same)\<close> and \<open>Path::is_child_of\<close>.\<close>

definition is_descendant_of :: "path \<Rightarrow> path \<Rightarrow> bool \<Rightarrow> bool" where
  "is_descendant_of p other or_are_same =
     (let candidate_size = path_size other; our_size = path_size p
      in if candidate_size > our_size then False
         else if \<not> or_are_same \<and> candidate_size = our_size then False
         else take candidate_size (parts p) = parts other)"

definition is_child_of :: "path \<Rightarrow> path \<Rightarrow> bool" where
  "is_child_of p other = (path_size p = path_size other + 1 \<and> is_descendant_of p other False)"

text \<open>
  \<open>Path::comparison\<close>: the sizes first, then the parts one by one, compared as
  \<open>std::string\<close> (lexicographically by character code).  The loop runs on parts of equal
  number.
\<close>

fun comparison_loop :: "string list \<Rightarrow> string list \<Rightarrow> int" where
  "comparison_loop (a # as) (b # bs) =
     (if a > b then 1 else if a < b then -1 else comparison_loop as bs)"
| "comparison_loop _ _ = 0"

definition comparison :: "path \<Rightarrow> path \<Rightarrow> int" where
  "comparison p other =
     (let our_size = path_size p; other_size = path_size other
      in if our_size > other_size then 1
         else if our_size < other_size then -1
         else comparison_loop (parts p) (parts other))"

definition path_less :: "path \<Rightarrow> path \<Rightarrow> bool" where
  "path_less p other = (comparison p other < 0)"

definition path_equal :: "path \<Rightarrow> path \<Rightarrow> bool" where
  "path_equal p other = (comparison p other = 0)"

section \<open>Node tree (node.hpp, node.cpp)\<close>

text \<open>
  An element is its name and its attribute map; the element kinds differ in how they
  render, which the child order does not depend on.
\<close>

datatype element = Element (get_name: string) (attributes: "(string \<times> string) list")

definition set_name :: "element \<Rightarrow> string \<Rightarrow> element" where
  "set_name e new_name = Element new_name (attributes e)"

text \<open>
  A node owns its element, its children, its templates and the insertion index of each
  template.  The parent pointer is the nesting of the tree; the shared render tree, which
  the mutators erase, is modelled on its own below.
\<close>

datatype node =
  Node (m_element: element) (m_children: "node list") (m_templates: "node list")
       (m_template_insertion_indexes: "nat list")

definition node_name :: "node \<Rightarrow> string" where
  "node_name n = get_name (m_element n)"

definition children_names :: "node \<Rightarrow> string list" where
  "children_names n = map node_name (m_children n)"

text \<open>\<open>Node::construct\<close>: a node with no children and no templates.\<close>

definition node_construct :: "element \<Rightarrow> node" where
  "node_construct e = Node e [] [] []"

text \<open>
  \<open>Node::add_child(node, maybe_insertion_index)\<close> on the parent \<open>p\<close>.  The two
  assertions on names and on the index are errors.
\<close>

definition add_child :: "node \<Rightarrow> node \<Rightarrow> nat option \<Rightarrow> error + node" where
  "add_child p n maybe_insertion_index =
     (if \<not> list_all (\<lambda>child_node. node_name child_node \<noteq> node_name n) (m_children p)
      then Inl AssertionFailed
      else (case maybe_insertion_index of
              Some insertion_index \<Rightarrow>
                (if \<not> insertion_index \<le> length (m_children p) then Inl AssertionFailed
                 else Inr (Node (m_element p)
                             (take insertion_index (m_children p) @ n #
                              drop insertion_index (m_children p))
                             (m_templates p)
                             (map (\<lambda>template_insertion_index.
                                     if template_insertion_index \<ge> insertion_index
                                     then template_insertion_index + 1
                                     else template_insertion_index)
                                (m_template_insertion_indexes p))))
            | None \<Rightarrow>
                Inr (Node (m_element p) (m_children p @ [n]) (m_templates p)
                       (m_template_insertion_indexes p))))"

text \<open>\<open>Node::add_template\<close>: the new template is a fresh object, so its assertion holds.\<close>

definition add_template :: "node \<Rightarrow> node \<Rightarrow> node" where
  "add_template p template_node =
     Node (m_element p) (m_children p) (m_templates p @ [template_node])
       (m_template_insertion_indexes p @ [length (m_children p)])"

definition construct_child :: "node \<Rightarrow> element \<Rightarrow> error + node" where
  "construct_child p e = add_child p (node_construct e) None"

definition construct_template :: "node \<Rightarrow> element \<Rightarrow> node" where
  "construct_template p e = add_template p (node_construct e)"

fun try_get_template :: "node list \<Rightarrow> string \<Rightarrow> node option" where
  "try_get_template [] with_name = None"
| "try_get_template (template_node # rest) with_name =
     (if node_name template_node = with_name then Some template_node
      else try_get_template rest with_name)"

text \<open>
  \<open>Node::compute_child_insertion_index\<close>: the index stored for the first template of
  that name; \<open>assert(false)\<close> when there is none.
\<close>

fun compute_child_insertion_index :: "node list \<Rightarrow> nat list \<Rightarrow> string \<Rightarrow> error + nat" where
  "compute_child_insertion_index (template_node # ts) (i # is) with_name =
     (if node_name template_node = with_name then Inr i
      else compute_child_insertion_index ts is with_name)"
| "compute_child_insertion_index _ _ with_name = Inl AssertionFailed"

text \<open>Adding a list of children or templates one after the other.\<close>

fun add_children :: "node \<Rightarrow> node list \<Rightarrow> error + node" where
  "add_children p [] = Inr p"
| "add_children p (n # ns) =
     (case add_child p n None of Inl e \<Rightarrow> Inl e | Inr p' \<Rightarrow> add_children p' ns)"

text \<open>
  \<open>Node::clone_into_parent\<close> with \<open>copy_children_from_node\<close>: the copy has the cloned
  element under the new name, then receives a clone of every child and of every
  template of the original, and last the original's insertion indexes.
\<close>

fun clone_into_parent :: "string \<Rightarrow> node \<Rightarrow> error + node" where
  "clone_into_parent new_name (Node e cs ts ixs) =
     (case all_ok (map (\<lambda>child_node. clone_into_parent (node_name child_node) child_node) cs) of
        Inl err \<Rightarrow> Inl err
      | Inr cs' \<Rightarrow>
          (case add_children (Node (set_name e new_name) [] [] []) cs' of
             Inl err \<Rightarrow> Inl err
           | Inr n1 \<Rightarrow>
               (case all_ok (map (\<lambda>template_node.
                                   clone_into_parent (node_name template_node) template_node) ts) of
                  Inl err \<Rightarrow> Inl err
                | Inr ts' \<Rightarrow>
                    (let n2 = fold (\<lambda>t p. add_template p t) ts' n1
                     in Inr (Node (m_element n2) (m_children n2) (m_templates n2) ixs)))))"

text \<open>\<open>Node::try_make_template\<close>.\<close>

definition try_make_template :: "node \<Rightarrow> string \<Rightarrow> string \<Rightarrow> error + node" where
  "try_make_template p template_name new_name =
     (case try_get_template (m_templates p) template_name of
        None \<Rightarrow> Inl (UnknownTemplate template_name)
      | Some template_node \<Rightarrow>
          (case clone_into_parent new_name template_node of
             Inl e \<Rightarrow> Inl e
           | Inr constructed_child \<Rightarrow>
               (case compute_child_insertion_index (m_templates p)
                       (m_template_insertion_indexes p) template_name of
                  Inl e \<Rightarrow> Inl e
                | Inr insertion_index \<Rightarrow> add_child p constructed_child (Some insertion_index))))"

section \<open>Event server (event.hpp, event.cpp)\<close>

datatype event_type = Add | Remove | Move | Resize | Recolor | Retext

record event =
  ev_path :: path
  ev_geometry :: geometry
  ev_type :: event_type

datatype event_filter = ReceiveAll | SkipNonDrawable

record listener_position =
  lp_filter :: event_filter
  lp_index :: nat

text \<open>
  Every method of the server runs under \<open>m_event_mutex\<close>, so a method is a step on the
  guarded state.  A \<open>ListenerToken\<close> is an \<open>unsigned int\<close>.
\<close>

record event_server =
  m_events :: "event list"
  m_listener_pos :: "32 word \<Rightarrow> listener_position option"
  m_token_counter :: "32 word"

text \<open>\<open>EventServer::request_listener\<close>; \<open>emplace\<close> leaves an existing entry as it is.\<close>

definition request_listener :: "event_filter \<Rightarrow> event_server \<Rightarrow> 32 word \<times> event_server" where
  "request_listener fltr s =
     (let token = m_token_counter s;
          pos = \<lparr> lp_filter = fltr, lp_index = 0 \<rparr>
      in (token,
          s\<lparr> m_token_counter := token + 1,
             m_listener_pos := (if m_listener_pos s token = None
                                then (m_listener_pos s)(token \<mapsto> pos)
                                else m_listener_pos s) \<rparr>))"

definition release_listener :: "32 word \<Rightarrow> event_server \<Rightarrow> event_server" where
  "release_listener token s = s\<lparr> m_listener_pos := (m_listener_pos s)(token := None) \<rparr>"

definition add_event :: "event \<Rightarrow> event_server \<Rightarrow> event_server" where
  "add_event e s = s\<lparr> m_events := m_events s @ [e] \<rparr>"

text \<open>\<open>EventServer::index_of_next_event\<close>.\<close>

function index_of_next_event :: "event list \<Rightarrow> event_filter \<Rightarrow> nat \<Rightarrow> nat" where
  "index_of_next_event events fltr index =
     (if index < length events then
        (if fltr = SkipNonDrawable \<and> \<not> should_draw (ev_geometry (events ! index))
         then index_of_next_event events fltr (index + 1)
         else index)
      else index)"
  by pat_completeness auto
termination
  by (relation "measure (\<lambda>(events, fltr, index). length events - index)") auto

declare index_of_next_event.simps [simp del]

text \<open>\<open>EventServer::event_available\<close>; \<open>m_listener_pos.at(token)\<close> throws on a missing token.\<close>

definition event_available :: "32 word \<Rightarrow> event_server \<Rightarrow> error + bool" where
  "event_available token s =
     (case m_listener_pos s token of
        None \<Rightarrow> Inl OutOfRange
      | Some pos \<Rightarrow>
          Inr (index_of_next_event (m_events s) (lp_filter pos) (lp_index pos) < length (m_events s)))"

text \<open>
  \<open>EventServer::pop_event\<close>.  Next to the event and the new state the model returns
  \<open>event_index\<close>, the position of the event in \<open>m_events\<close>, which the source computes and
  keeps to itself.
\<close>

definition pop_event :: "32 word \<Rightarrow> event_server \<Rightarrow> error + (nat \<times> event) \<times> event_server" where
  "pop_event token s =
     (case m_listener_pos s token of
        None \<Rightarrow> Inl OutOfRange
      | Some pos \<Rightarrow>
          (let event_index = index_of_next_event (m_events s) (lp_filter pos) (lp_index pos)
           in if \<not> event_index < length (m_events s) then Inl OutOfRange
              else Inr ((event_index, m_events s ! event_index),
                        s\<lparr> m_listener_pos :=
                             (m_listener_pos s)(token \<mapsto> pos\<lparr> lp_index := event_index + 1 \<rparr>) \<rparr>)))"

definition try_pop_event ::
  "32 word \<Rightarrow> event_server \<Rightarrow> error + (nat \<times> event) option \<times> event_server" where
  "try_pop_event token s =
     (case event_available token s of
        Inl e \<Rightarrow> Inl e
      | Inr available \<Rightarrow>
          (if \<not> available then Inr (None, s)
           else (case pop_event token s of
                   Inl e \<Rightarrow> Inl e
                 | Inr (ie, s') \<Rightarrow> Inr (Some ie, s'))))"

text \<open>
  A run of the server: producers append, listeners pop, new listeners register, in any
  interleaving.  \<open>wait_for_event\<close> and \<open>try_wait_for_event_for\<close> block until
  \<open>event_available\<close> holds and then pop as \<open>try_pop_event\<close> does.  The run collects, for
  every pop that returned an event, the token, the index and the event; a pop that threw
  leaves the state as it was.
\<close>

datatype server_op = Append event | TryPop "32 word" | Request event_filter

fun run_server ::
  "server_op list \<Rightarrow> event_server \<Rightarrow> (32 word \<times> nat \<times> event) list \<times> event_server" where
  "run_server [] s = ([], s)"
| "run_server (Append e # ops) s = run_server ops (add_event e s)"
| "run_server (Request fltr # ops) s = run_server ops (snd (request_listener fltr s))"
| "run_server (TryPop token # ops) s =
     (case try_pop_event token s of
        Inl err \<Rightarrow> run_server ops s
      | Inr (None, s') \<Rightarrow> run_server ops s'
      | Inr (Some (i, e), s') \<Rightarrow>
          (case run_server ops s' of (popped, s'') \<Rightarrow> ((token, i, e) # popped, s'')))"

text \<open>The indices that the pops of one listener returned, in the order of the pops.\<close>

definition popped_indices :: "32 word \<Rightarrow> (32 word \<times> nat \<times> event) list \<Rightarrow> nat list" where
  "popped_indices token popped = map (\<lambda>(t, i, e). i) (filter (\<lambda>(t, i, e). t = token) popped)"

text \<open>The cursor of a listener: the index its next pop starts from, 0 when it is not registered.\<close>

definition cursor :: "event_server \<Rightarrow> 32 word \<Rightarrow> nat" where
  "cursor s token = (case m_listener_pos s token of None \<Rightarrow> 0 | Some pos \<Rightarrow> lp_index pos)"


section \<open>Render tree (render.hpp, render.cpp)\<close>

datatype render_differences = FirstMissing | SecondMissing | Pos | BoundsDiff | Color | Text

text \<open>
  \<open>m_rendered\<close> is a \<open>std::map<Path, Geometry>\<close> ordered by \<open>Path::operator<\<close>: the list
  of its entries in iteration order.  Two keys are the same key of the map when neither
  is less than the other.
\<close>

type_synonym rendered_map = "(path \<times> geometry) list"

definition same_key :: "path \<Rightarrow> path \<Rightarrow> bool" where
  "same_key a b = (\<not> path_less a b \<and> \<not> path_less b a)"

fun map_find :: "path \<Rightarrow> rendered_map \<Rightarrow> geometry option" where
  "map_find k [] = None"
| "map_find k ((k', v) # rest) = (if same_key k k' then Some v else map_find k rest)"

fun map_insert_or_assign :: "path \<Rightarrow> geometry \<Rightarrow> rendered_map \<Rightarrow> rendered_map" where
  "map_insert_or_assign k v [] = [(k, v)]"
| "map_insert_or_assign k v ((k', v') # rest) =
     (if path_less k k' then (k, v) # (k', v') # rest
      else if path_less k' k then (k', v') # map_insert_or_assign k v rest
      else (k', v) # rest)"

text \<open>\<open>m_rendered.at(k).f()\<close>: the value under the key is changed in place.\<close>

definition map_modify :: "path \<Rightarrow> (geometry \<Rightarrow> geometry) \<Rightarrow> rendered_map \<Rightarrow> rendered_map" where
  "map_modify k f m = map (\<lambda>(k', v). if same_key k k' then (k', f v) else (k', v)) m"

record render_tree =
  m_insertion_order :: "path list"
  m_rendered :: rendered_map

definition RenderTree :: render_tree where
  "RenderTree = \<lparr> m_insertion_order = [], m_rendered = [] \<rparr>"

definition needs_updating :: "path \<Rightarrow> render_tree \<Rightarrow> bool" where
  "needs_updating p t = (map_find p (m_rendered t) = None)"

definition update :: "path \<Rightarrow> geometry \<Rightarrow> render_tree \<Rightarrow> render_tree" where
  "update p g t =
     \<lparr> m_insertion_order =
         (if map_find p (m_rendered t) = None then m_insertion_order t @ [p]
          else m_insertion_order t),
       m_rendered = map_insert_or_assign p g (m_rendered t) \<rparr>"

definition get :: "path \<Rightarrow> render_tree \<Rightarrow> geometry option" where
  "get p t = map_find p (m_rendered t)"

definition positioned_bounds_of :: "path \<Rightarrow> render_tree \<Rightarrow> bounds" where
  "positioned_bounds_of p t =
     (case fold (\<lambda>(k, g) maybe_bounds.
                   if is_descendant_of k p True
                   then (case maybe_bounds of
                           Some b \<Rightarrow> Some (bounds_plus b (positioned_bounds g))
                         | None \<Rightarrow> Some (positioned_bounds g))
                   else maybe_bounds)
             (m_rendered t) None of
        Some b \<Rightarrow> b
      | None \<Rightarrow> Bounds0)"

text \<open>
  \<open>RenderTree::differences_from\<close>: the merge loop on the entries left of the two maps,
  \<open>first\<close> being this tree's and \<open>last\<close> the other tree's.
\<close>

definition geometry_differences :: "path \<Rightarrow> geometry \<Rightarrow> geometry \<Rightarrow> (path \<times> render_differences) list" where
  "geometry_differences first_path first_geometry last_geometry =
     (if \<not> point_eq (m_pos first_geometry) (m_pos last_geometry) then [(first_path, Pos)] else []) @
     (if \<not> bounds_eq (m_bounds first_geometry) (m_bounds last_geometry)
      then [(first_path, BoundsDiff)] else []) @
     (if m_color first_geometry \<noteq> m_color last_geometry then [(first_path, Color)] else []) @
     (if m_text first_geometry \<noteq> m_text last_geometry then [(first_path, Text)] else [])"

fun differences_loop :: "rendered_map \<Rightarrow> rendered_map \<Rightarrow> (path \<times> render_differences) list" where
  "differences_loop [] [] = []"
| "differences_loop ((first_path, first_geometry) # first_rest) [] =
     (first_path, SecondMissing) # differences_loop first_rest []"
| "differences_loop [] ((last_path, last_geometry) # last_rest) =
     (last_path, FirstMissing) # differences_loop [] last_rest"
| "differences_loop ((first_path, first_geometry) # first_rest) ((last_path, last_geometry) # last_rest) =
     (if path_less first_path last_path
      then (first_path, SecondMissing) #
           differences_loop first_rest ((last_path, last_geometry) # last_rest)
      else if path_less last_path first_path
      then (last_path, FirstMissing) #
           differences_loop ((first_path, first_geometry) # first_rest) last_rest
      else geometry_differences first_path first_geometry last_geometry @
           differences_loop first_rest last_rest)"

definition differences_from :: "render_tree \<Rightarrow> render_tree \<Rightarrow> (path \<times> render_differences) list" where
  "differences_from t other_render_tree =
     differences_loop (m_rendered t) (m_rendered other_render_tree)"

text \<open>The paths that a list of differences reports with one tag.\<close>

definition paths_tagged :: "render_differences \<Rightarrow> (path \<times> render_differences) list \<Rightarrow> path set" where
  "paths_tagged tag differences = {p. (p, tag) \<in> set differences}"

text \<open>\<open>m_rendered.at(our_path)\<close> throws \<open>std::out_of_range\<close> on a missing key.\<close>

definition map_at :: "rendered_map \<Rightarrow> path \<Rightarrow> error + path \<times> geometry" where
  "map_at m our_path =
     (case map_find our_path m of None \<Rightarrow> Inl OutOfRange | Some g \<Rightarrow> Inr (our_path, g))"

definition children_of :: "path \<Rightarrow> render_tree \<Rightarrow> error + (path \<times> geometry) list" where
  "children_of p t =
     all_ok (map (map_at (m_rendered t))
               (filter (\<lambda>our_path. is_child_of our_path p) (m_insertion_order t)))"

definition descendants_of :: "path \<Rightarrow> bool \<Rightarrow> render_tree \<Rightarrow> error + (path \<times> geometry) list" where
  "descendants_of p including t =
     all_ok (map (map_at (m_rendered t))
               (filter (\<lambda>our_path. is_descendant_of our_path p including) (m_insertion_order t)))"

definition move_parent_and_descendants_by_impl ::
  "path \<Rightarrow> point \<Rightarrow> path option \<Rightarrow> bool \<Rightarrow> render_tree \<Rightarrow> render_tree" where
  "move_parent_and_descendants_by_impl p by_pos excluding_subdescendants_of excluding_parent t =
     (let m1 = (if \<not> excluding_parent \<and> map_find p (m_rendered t) \<noteq> None
                then map_modify p (offset_pos by_pos) (m_rendered t)
                else m_rendered t);
          m2 = map (\<lambda>(rendered_path, rendered_geometry).
                      if is_descendant_of rendered_path p False
                         \<and> (excluding_subdescendants_of = None
                            \<or> \<not> is_descendant_of rendered_path (the excluding_subdescendants_of) True)
                      then (rendered_path, offset_pos by_pos rendered_geometry)
                      else (rendered_path, rendered_geometry)) m1
      in t\<lparr> m_rendered := m2 \<rparr>)"

definition move_parent_and_descendants_by_excluding ::
  "path \<Rightarrow> point \<Rightarrow> path \<Rightarrow> render_tree \<Rightarrow> render_tree" where
  "move_parent_and_descendants_by_excluding p by_pos excluding t =
     move_parent_and_descendants_by_impl p by_pos (Some excluding) False t"

definition move_parent_and_descendants_by :: "path \<Rightarrow> point \<Rightarrow> render_tree \<Rightarrow> render_tree" where
  "move_parent_and_descendants_by p by_pos t =
     move_parent_and_descendants_by_impl p by_pos None False t"

definition move_descendants_by :: "path \<Rightarrow> point \<Rightarrow> render_tree \<Rightarrow> render_tree" where
  "move_descendants_by p by_pos t = move_parent_and_descendants_by_impl p by_pos None True t"

definition scale_parent_and_descendants_by :: "path \<Rightarrow> float \<Rightarrow> render_tree \<Rightarrow> error + render_tree" where
  "scale_parent_and_descendants_by p factor t =
     (case descendants_of p True t of
        Inl e \<Rightarrow> Inl e
      | Inr ds \<Rightarrow>
          Inr (fold (\<lambda>(descendant_path, descendant_geometry).
                       update descendant_path (scale_by factor descendant_geometry)) ds t))"

text \<open>
  \<open>RenderTree::rotate_children_of\<close> calls itself on every child of the path.  The first
  argument bounds the depth of the calls; a call without depth left is \<open>OutOfFuel\<close>.
\<close>

primrec rotate_children_of ::
  "nat \<Rightarrow> path \<Rightarrow> point \<Rightarrow> rotation \<Rightarrow> render_tree \<Rightarrow> error + render_tree" where
  "rotate_children_of 0 p rotation_pt rot t = Inl OutOfFuel"
| "rotate_children_of (Suc fuel) p rotation_pt rot t =
     (case children_of p t of
        Inl e \<Rightarrow> Inl e
      | Inr children_paths_and_geometries \<Rightarrow>
          (case fold_err (\<lambda>child_path. rotate_children_of fuel child_path rotation_pt rot)
                  (map fst children_paths_and_geometries) t of
             Inl e \<Rightarrow> Inl e
           | Inr t' \<Rightarrow>
               (case get p t' of
                  None \<Rightarrow> Inr t'
                | Some g \<Rightarrow> Inr (update p (geometry_rotate_around rotation_pt rot g) t'))))"

text \<open>
  \<open>RenderTree::rotate_parent_and_descendants_in_place\<close>.  A chain of calls of
  \<open>rotate_children_of\<close> goes from a path to one of its children in the insertion order,
  so it is no longer than that list, plus the call it starts with.
\<close>

definition rotate_parent_and_descendants_in_place ::
  "path \<Rightarrow> rotation \<Rightarrow> render_tree \<Rightarrow> error + render_tree" where
  "rotate_parent_and_descendants_in_place p rot t =
     (let pos_bounds = positioned_bounds_of p t;
          old_left_corner_pt = bottom_left pos_bounds;
          rotation_pt = bounds_center pos_bounds
      in case rotate_children_of (Suc (length (m_insertion_order t))) p rotation_pt rot t of
           Inl e \<Rightarrow> Inl e
         | Inr t' \<Rightarrow>
             (let new_left_corner_pt = bottom_left (positioned_bounds_of p t');
                  offset_from_rotation = point_sub old_left_corner_pt new_left_corner_pt
              in Inr (move_parent_and_descendants_by p offset_from_rotation t')))"

definition invalidate_parent_and_child_pos :: "path \<Rightarrow> render_tree \<Rightarrow> render_tree" where
  "invalidate_parent_and_child_pos p t = \<lparr> m_insertion_order = [], m_rendered = [] \<rparr>"

text \<open>The mutators of a render tree, and a sequence of them; an exception ends the sequence.\<close>

datatype render_op =
    Update path geometry
  | MoveBy path point
  | MoveByExcluding path point path
  | MoveDescendantsBy path point
  | ScaleBy path float
  | RotateInPlace path rotation
  | Invalidate path

fun apply_render_op :: "render_op \<Rightarrow> render_tree \<Rightarrow> error + render_tree" where
  "apply_render_op (Update p g) t = Inr (update p g t)"
| "apply_render_op (MoveBy p by_pos) t = Inr (move_parent_and_descendants_by p by_pos t)"
| "apply_render_op (MoveByExcluding p by_pos excluding) t =
     Inr (move_parent_and_descendants_by_excluding p by_pos excluding t)"
| "apply_render_op (MoveDescendantsBy p by_pos) t = Inr (move_descendants_by p by_pos t)"
| "apply_render_op (ScaleBy p factor) t = scale_parent_and_descendants_by p factor t"
| "apply_render_op (RotateInPlace p rot) t = rotate_parent_and_descendants_in_place p rot t"
| "apply_render_op (Invalidate p) t = Inr (invalidate_parent_and_child_pos p t)"

definition run_render_ops :: "render_op list \<Rightarrow> render_tree \<Rightarrow> error + render_tree" where
  "run_render_ops ops t = fold_err apply_render_op ops t"

text \<open>
  The keys of the rendered map, and the relation between the two fields of a render
  tree: the insertion order lists exactly the keys, each once.
\<close>

definition tree_keys :: "render_tree \<Rightarrow> path set" where
  "tree_keys t = fst ` set (m_rendered t)"

definition tree_inv :: "render_tree \<Rightarrow> bool" where
  "tree_inv t = (set (m_insertion_order t) = tree_keys t \<and> distinct (m_insertion_order t))"

text \<open>
  \<open>std::map<Path, Geometry>\<close> keeps its entries in the order of \<open>Path::operator<\<close>;
  the list that stands for it has its keys in that order.
\<close>

definition keys_sorted :: "render_tree \<Rightarrow> bool" where
  "keys_sorted t = sorted_wrt path_less (map fst (m_rendered t))"


section \<open>Topological sort of attribute dependencies (value.cpp)\<close>

text \<open>
  The two \<open>std::map\<close> arguments are the lists of their entries in key order:
  \<open>dependencies\<close> maps a value name to the name it depends on, if any, \<open>aliases\<close> an
  abbreviation to the full name.
\<close>

type_synonym dependencies = "(string \<times> string option) list"

type_synonym aliases = "(string \<times> string) list"

definition resolve_alias :: "string \<Rightarrow> aliases \<Rightarrow> string" where
  "resolve_alias name als = (case map_of als name of Some resolved_name \<Rightarrow> resolved_name | None \<Rightarrow> name)"

text \<open>
  The \<open>boost::bimap\<close> \<open>indexes\<close> relates the index \<open>k\<close> to the \<open>k\<close>-th name that was
  inserted: it is the list of the names, and \<open>i\<close> is its length.  The
  \<open>boost::adjacency_list<listS, vecS, directedS>\<close> is the list of the out-edge lists of
  its vertices; \<open>add_vertex\<close> appends a vertex without edges, \<open>add_edge\<close> appends the
  target to the out-edge list of the source.
\<close>

type_synonym graph = "nat list list"

fun find_index_of :: "string \<Rightarrow> string list \<Rightarrow> nat option" where
  "find_index_of name [] = None"
| "find_index_of name (n # ns) =
     (if n = name then Some 0 else map_option Suc (find_index_of name ns))"

text \<open>The index of a name, after inserting the name and adding its vertex when it is new.\<close>

definition index_or_insert :: "string \<Rightarrow> string list \<times> graph \<Rightarrow> nat \<times> string list \<times> graph" where
  "index_or_insert name st =
     (case st of (indexes, g) \<Rightarrow>
        (case find_index_of name indexes of
           None \<Rightarrow> (length indexes, indexes @ [name], g @ [[]])
         | Some name_index \<Rightarrow> (name_index, indexes, g)))"

definition add_edge :: "nat \<Rightarrow> nat \<Rightarrow> graph \<Rightarrow> graph" where
  "add_edge u v g = g[u := g ! u @ [v]]"

text \<open>The body of the first loop of \<open>topological_sort_with_aliases\<close>, for one entry.\<close>

definition add_dependency ::
  "aliases \<Rightarrow> string \<times> string option \<Rightarrow> string list \<times> graph \<Rightarrow> string list \<times> graph" where
  "add_dependency als entry st =
     (case entry of (name, maybe_dep) \<Rightarrow>
        (let resolved_dep = map_option (\<lambda>dep. resolve_alias dep als) maybe_dep
         in case index_or_insert name st of (name_index, st1) \<Rightarrow>
              (case resolved_dep of
                 None \<Rightarrow> st1
               | Some dep \<Rightarrow>
                   (case index_or_insert dep st1 of (dep_index, indexes, g) \<Rightarrow>
                      (indexes, add_edge dep_index name_index g)))))"

definition build_graph :: "dependencies \<Rightarrow> aliases \<Rightarrow> string list \<times> graph" where
  "build_graph deps als = fold (add_dependency als) deps ([], [])"

text \<open>
  \<open>boost::topological_sort\<close> is a depth-first search whose visitor throws
  \<open>not_a_dag\<close> on a back edge and writes a vertex to the output when the vertex is
  finished.  The output is \<open>std::front_inserter(order)\<close>, so a finished vertex is put in
  front of \<open>order\<close>.  \<open>dfs_visit\<close> is the visit of a white vertex, \<open>dfs_out_edges\<close> the
  loop over its out-edges, \<open>dfs_roots\<close> the loop of \<open>depth_first_search\<close> over all
  vertices.  The first argument bounds the depth of the visits.  A vertex that the graph
  does not have is \<open>OutOfRange\<close>.
\<close>

datatype color = White | Gray | Black

fun dfs_visit :: "nat \<Rightarrow> graph \<Rightarrow> nat \<Rightarrow> color list \<times> nat list \<Rightarrow> error + color list \<times> nat list"
  and dfs_out_edges ::
    "nat \<Rightarrow> graph \<Rightarrow> nat list \<Rightarrow> color list \<times> nat list \<Rightarrow> error + color list \<times> nat list" where
  "dfs_visit 0 g u st = Inl OutOfFuel"
| "dfs_visit (Suc fuel) g u (colors, order) =
     (if \<not> (u < length g \<and> u < length colors) then Inl OutOfRange
      else (case dfs_out_edges fuel g (g ! u) (colors[u := Gray], order) of
              Inl e \<Rightarrow> Inl e
            | Inr (colors', order') \<Rightarrow> Inr (colors'[u := Black], u # order')))"
| "dfs_out_edges fuel g [] st = Inr st"
| "dfs_out_edges fuel g (v # vs) (colors, order) =
     (if \<not> v < length colors then Inl OutOfRange
      else (case colors ! v of
              White \<Rightarrow>
                (case dfs_visit fuel g v (colors, order) of
                   Inl e \<Rightarrow> Inl e
                 | Inr st' \<Rightarrow> dfs_out_edges fuel g vs st')
            | Gray \<Rightarrow> Inl NotADag
            | Black \<Rightarrow> dfs_out_edges fuel g vs (colors, order)))"

fun dfs_roots ::
  "nat \<Rightarrow> graph \<Rightarrow> nat list \<Rightarrow> color list \<times> nat list \<Rightarrow> error + color list \<times> nat list" where
  "dfs_roots fuel g [] st = Inr st"
| "dfs_roots fuel g (u # us) (colors, order) =
     (if \<not> u < length colors then Inl OutOfRange
      else if colors ! u = White
      then (case dfs_visit fuel g u (colors, order) of
              Inl e \<Rightarrow> Inl e
            | Inr st' \<Rightarrow> dfs_roots fuel g us st')
      else dfs_roots fuel g us (colors, order))"

text \<open>
  No chain of visits is longer than the number of vertices, since every visit colors a
  white vertex; that number is the depth \<open>topological_sort\<close> starts with.
\<close>

definition topological_sort :: "graph \<Rightarrow> error + nat list" where
  "topological_sort g =
     (case dfs_roots (length g) g [0 ..< length g] (replicate (length g) White, []) of
        Inl e \<Rightarrow> Inl e
      | Inr (colors, order) \<Rightarrow> Inr order)"

text \<open>
  \<open>topological_sort_with_aliases\<close>: the graph is built, sorted, and the sorted indexes
  are turned into names again (the source asserts that each index has a name), leaving
  out the names that are no keys of \<open>dependencies\<close>.  \<open>not_a_dag\<close> is caught and becomes the \<open>std::runtime_error\<close> whose
  message lists every entry of \<open>dependencies\<close>.
\<close>

definition topological_sort_with_aliases :: "dependencies \<Rightarrow> aliases \<Rightarrow> error + string list" where
  "topological_sort_with_aliases deps als =
     (case build_graph deps als of (indexes, g) \<Rightarrow>
        (case topological_sort g of
           Inl NotADag \<Rightarrow> Inl (AttributeCycle deps)
         | Inl e \<Rightarrow> Inl e
         | Inr order \<Rightarrow>
             (case all_ok (map (\<lambda>index. if index < length indexes then Inr (indexes ! index)
                                          else Inl AssertionFailed) order) of
                Inl e \<Rightarrow> Inl e
              | Inr names \<Rightarrow> Inr (filter (\<lambda>name. map_of deps name \<noteq> None) names))))"

text \<open>
  The dependency relation after the aliases are resolved: the pairs of a resolved
  dependency and the name that depends on it.
\<close>

definition resolved_dependencies :: "dependencies \<Rightarrow> aliases \<Rightarrow> (string \<times> string) set" where
  "resolved_dependencies deps als =
     set (List.map_filter
            (\<lambda>(name, maybe_dep). map_option (\<lambda>dep. (resolve_alias dep als, name)) maybe_dep) deps)"

text \<open>
  Notions for reasoning about the search: the edges of a graph, graphs whose edges stay
  among the vertices, orders in which every vertex comes before the targets of its
  out-edges, the relation between the colors and the output during the search, and the
  numbers of the white vertices.  \<open>dfs_done\<close> says that a search ended, with a result or
  with \<open>not_a_dag\<close>.  \<open>name_edges\<close> are the edges of the graph between the names of the
  vertices, and \<open>build_inv\<close> relates the graph built so far to the entries read so far.
\<close>

definition graph_edges :: "graph \<Rightarrow> (nat \<times> nat) set" where
  "graph_edges g = {(u, v). u < length g \<and> v \<in> set (g ! u)}"

definition graph_wf :: "graph \<Rightarrow> bool" where
  "graph_wf g = (\<forall>u < length g. \<forall>v \<in> set (g ! u). v < length g)"

fun topo_ordered :: "graph \<Rightarrow> nat list \<Rightarrow> bool" where
  "topo_ordered g [] = True"
| "topo_ordered g (u # us) = (set (g ! u) \<subseteq> set us \<and> topo_ordered g us)"

definition dfs_inv :: "graph \<Rightarrow> color list \<times> nat list \<Rightarrow> bool" where
  "dfs_inv g st =
     (length (fst st) = length g
      \<and> (\<forall>v < length g. (fst st ! v = Black) = (v \<in> set (snd st)))
      \<and> set (snd st) \<subseteq> {..< length g}
      \<and> distinct (snd st)
      \<and> topo_ordered g (snd st))"

definition same_gray :: "color list \<Rightarrow> color list \<Rightarrow> bool" where
  "same_gray c c' = (length c' = length c \<and> (\<forall>v < length c. (c' ! v = Gray) = (c ! v = Gray)))"

definition black_mono :: "color list \<Rightarrow> color list \<Rightarrow> bool" where
  "black_mono c c' = (\<forall>v < length c. c ! v = Black \<longrightarrow> c' ! v = Black)"

definition white_count :: "color list \<Rightarrow> nat" where
  "white_count c = card {v. v < length c \<and> c ! v = White}"

definition dfs_done :: "error + color list \<times> nat list \<Rightarrow> bool" where
  "dfs_done r = ((\<exists>st'. r = Inr st') \<or> r = Inl NotADag)"

definition name_edges :: "string list \<Rightarrow> graph \<Rightarrow> (string \<times> string) set" where
  "name_edges names g = (\<lambda>(u, v). (names ! u, names ! v)) ` graph_edges g"

definition build_inv :: "dependencies \<Rightarrow> aliases \<Rightarrow> string list \<times> graph \<Rightarrow> bool" where
  "build_inv processed als st =
     (distinct (fst st) \<and> length (snd st) = length (fst st) \<and> graph_wf (snd st)
      \<and> name_edges (fst st) (snd st) = resolved_dependencies processed als
      \<and> fst ` set processed \<subseteq> set (fst st))"

section \<open>Properties of the value system\<close>

lemma fmul_commute: "fmul a b = fmul b a"
  by (cases a; cases b) (auto simp: mult.commute)

text \<open>
  Claim C1.  A \<open>RelativeFloatValue\<close> is evaluated against a scope that binds every
  name it consults to a float: \<open>r\<close> is the scope's float for the relative name, \<open>own\<close>
  the scope's float for the value's own name.  Neither relative nor a percentage: the
  result is the multiplier times the stored value.  Not relative but a percentage: the
  multiplier is the percent amount.  Relative: the amount is \<open>r\<close> times the multiplier.
  In the percentage case the result is \<open>own\<close> times the amount over 100, in the order
  the source multiplies.
\<close>

theorem compute_relative_value_cases:
  assumes "is_relative v \<longrightarrow> get_float known (the (m_relative_name v)) = Inr r"
    and "m_is_percentage v \<longrightarrow> get_float known (m_value_name v) = Inr own"
  shows "(\<not> is_relative v \<and> \<not> m_is_percentage v \<longrightarrow>
            compute_relative_value v known = Inr (fmul (m_multiplier v) (m_value v)))
       \<and> (\<not> is_relative v \<and> m_is_percentage v \<longrightarrow>
            compute_relative_value v known = Inr (fmul own (fdiv (m_multiplier v) (Fin 100))))
       \<and> (is_relative v \<and> \<not> m_is_percentage v \<longrightarrow>
            compute_relative_value v known = Inr (fmul r (m_multiplier v)))
       \<and> (is_relative v \<and> m_is_percentage v \<longrightarrow>
            compute_relative_value v known =
              Inr (fmul own (fdiv (fmul r (m_multiplier v)) (Fin 100))))"
  using assms by (simp add: compute_relative_value_def fmul_commute)

text \<open>
  A width of \<open>50height%\<close> in a scope with height 4 and width 10: the amount is
  4 * 50 = 200 percent, of the ancestor width 10, which is 20.
\<close>

theorem compute_relative_value_cases_witness:
  "compute_relative_value
     \<lparr> m_value_name = ''width'', m_abbreviation = ''w'', m_value = Fin 1,
       m_defaulted = False, m_multiplier = Fin 50, m_is_percentage = True,
       m_relative_name = Some ''height'' \<rparr>
     [(''height'', VFloat \<lparr> m_value_name = ''height'', m_abbreviation = ''h'',
                             m_value = Fin 4, m_defaulted = False \<rparr>),
      (''width'', VFloat \<lparr> m_value_name = ''width'', m_abbreviation = ''w'',
                            m_value = Fin 10, m_defaulted = False \<rparr>)]
   = Inr (Fin 20)"
  using compute_relative_value_cases
    [of "\<lparr> m_value_name = ''width'', m_abbreviation = ''w'', m_value = Fin 1,
            m_defaulted = False, m_multiplier = Fin 50, m_is_percentage = True,
            m_relative_name = Some ''height'' \<rparr>"
        "[(''height'', VFloat \<lparr> m_value_name = ''height'', m_abbreviation = ''h'',
                                 m_value = Fin 4, m_defaulted = False \<rparr>),
          (''width'', VFloat \<lparr> m_value_name = ''width'', m_abbreviation = ''w'',
                                m_value = Fin 10, m_defaulted = False \<rparr>)]"
        "Fin 4" "Fin 10"]
  by (simp add: is_relative_def)

text \<open>
  Claim C4.  The width attribute is set to 10, height, depth and axis are defaulted, and
  the current lengths are 2, 3 and 0.  The width is constrained and the current width is
  not zero, so the candidate factor of the width is 10 / 2 = 5 and it is the only finite
  one.  \<open>compute_scale_factor\<close> returns 1: the width factor tests the depth argument,
  which is 0, where the height and depth factors test their own argument.
\<close>

theorem compute_scale_factor_width_tests_depth:
  "compute_scale_factor
     \<lparr> m_width = \<lparr> m_value_name = ''width'', m_abbreviation = ''w'', m_value = Fin 10,
                   m_defaulted = False, m_multiplier = Fin 1, m_is_percentage = False,
                   m_relative_name = None \<rparr>,
       m_height = \<lparr> m_value_name = ''height'', m_abbreviation = ''h'', m_value = Fin 1,
                    m_defaulted = True, m_multiplier = Fin 1, m_is_percentage = False,
                    m_relative_name = None \<rparr>,
       m_depth = \<lparr> m_value_name = ''depth'', m_abbreviation = ''d'', m_value = Fin 1,
                   m_defaulted = True, m_multiplier = Fin 1, m_is_percentage = False,
                   m_relative_name = None \<rparr>,
       m_axis = \<lparr> m_value_name = ''axis'', m_abbreviation = ''axis'', m_value = AxisX,
                  m_defaulted = True \<rparr> \<rparr>
     (Fin 2) (Fin 3) (Fin 0)
   = Inr (Fin 1)"
  by (simp add: compute_scale_factor_def std_min3_def)

section \<open>Properties of bounds\<close>

lemma pick_min_comm:
  "\<not> isnan a \<Longrightarrow> \<not> isnan b \<Longrightarrow>
   feq (if fgt a b then b else a) (if fgt b a then a else b)"
  by (cases a; cases b) (auto simp: fgt_def)

lemma pick_max_comm:
  "\<not> isnan a \<Longrightarrow> \<not> isnan b \<Longrightarrow>
   feq (if fgt a b then a else b) (if fgt b a then b else a)"
  by (cases a; cases b) (auto simp: fgt_def)

lemma feq_refl: "\<not> isnan a \<Longrightarrow> feq a a"
  by (cases a) auto

lemma feq_sym: "feq a b = feq b a"
  by (cases a; cases b) auto

lemma point_eq_refl: "\<not> point_is_nan p \<Longrightarrow> point_eq p p"
  by (cases p) (auto simp: feq_refl)

lemma point_eq_sym: "point_eq p q = point_eq q p"
  by (cases p; cases q) (auto simp: feq_sym)

lemma point_not_nan:
  "\<not> point_is_nan p \<Longrightarrow> \<not> isnan (px p) \<and> \<not> isnan (py p) \<and> \<not> isnan (pz p)"
  by (cases p) simp

lemma bounds_plus_nonzero:
  "\<not> bounds_eq a Bounds0 \<Longrightarrow> bounds_plus a other =
        Bounds
          (Point
            (if fgt (px (base a)) (px (base other)) then px (base other) else px (base a))
            (if fgt (py (base a)) (py (base other)) then py (base other) else py (base a))
            (if fgt (pz (base a)) (pz (base other)) then pz (base other) else pz (base a)))
          (Point
            (if fgt (px (end_pt a)) (px (end_pt other)) then px (end_pt a) else px (end_pt other))
            (if fgt (py (end_pt a)) (py (end_pt other)) then py (end_pt a) else py (end_pt other))
            (if fgt (pz (end_pt a)) (pz (end_pt other)) then pz (end_pt a) else pz (end_pt other)))"
  unfolding bounds_plus_def bounds_eq_def Bounds0_def bounds.sel by (rule if_not_P)

lemma bounds_plus_zero_left:
  "\<not> bounds_is_nan a \<Longrightarrow> bounds_eq (bounds_plus Bounds0 a) a"
  by (simp add: bounds_plus_def Bounds0_def Point0_def bounds_eq_def bounds_is_nan_def
      point_eq_refl)

lemma bounds_plus_comm:
  assumes "\<not> bounds_is_nan a" "\<not> bounds_is_nan b"
    and "\<not> bounds_eq a Bounds0" "\<not> bounds_eq b Bounds0"
  shows "bounds_eq (bounds_plus a b) (bounds_plus b a)"
proof -
  have na: "\<not> point_is_nan (base a)" "\<not> point_is_nan (end_pt a)"
    and nb: "\<not> point_is_nan (base b)" "\<not> point_is_nan (end_pt b)"
    using assms(1,2) by (simp_all add: bounds_is_nan_def)
  show ?thesis
    unfolding bounds_plus_nonzero [OF assms(3)] bounds_plus_nonzero [OF assms(4)]
      bounds_eq_def bounds.sel point_eq.simps
    using point_not_nan [OF na(1)] point_not_nan [OF na(2)]
      point_not_nan [OF nb(1)] point_not_nan [OF nb(2)]
    by (intro conjI pick_min_comm pick_max_comm) simp_all
qed

text \<open>
  Claim C5, as the code has it.  On bounds without a NaN coordinate, the zero bounds are
  a left identity of the union, \<open>zero + a == a\<close>, and the union commutes,
  \<open>a + b == b + a\<close>, when neither operand is the zero bounds.
\<close>

theorem bounds_union_left_identity_and_commutes:
  "(\<not> bounds_is_nan a \<longrightarrow> bounds_eq (bounds_plus Bounds0 a) a)
 \<and> (\<not> bounds_is_nan a \<and> \<not> bounds_is_nan b \<and> \<not> bounds_eq a Bounds0 \<and> \<not> bounds_eq b Bounds0
      \<longrightarrow> bounds_eq (bounds_plus a b) (bounds_plus b a))"
  using bounds_plus_zero_left bounds_plus_comm by blast

theorem bounds_union_left_identity_and_commutes_witness:
  "bounds_eq
     (bounds_plus Bounds0 (Bounds (Point (Fin 1) (Fin 1) (Fin 1)) (Point (Fin 2) (Fin 2) (Fin 2))))
     (Bounds (Point (Fin 1) (Fin 1) (Fin 1)) (Point (Fin 2) (Fin 2) (Fin 2)))
 \<and> bounds_eq
     (bounds_plus (Bounds (Point (Fin 1) (Fin 1) (Fin 1)) (Point (Fin 2) (Fin 2) (Fin 2)))
                  (Bounds (Point (Fin 0) (Fin 0) (Fin 0)) (Point (Fin 3) (Fin 1) (Fin 5))))
     (bounds_plus (Bounds (Point (Fin 0) (Fin 0) (Fin 0)) (Point (Fin 3) (Fin 1) (Fin 5)))
                  (Bounds (Point (Fin 1) (Fin 1) (Fin 1)) (Point (Fin 2) (Fin 2) (Fin 2))))"
  using bounds_union_left_identity_and_commutes
    [of "Bounds (Point (Fin 1) (Fin 1) (Fin 1)) (Point (Fin 2) (Fin 2) (Fin 2))"
        "Bounds (Point (Fin 0) (Fin 0) (Fin 0)) (Point (Fin 3) (Fin 1) (Fin 5))"]
  by (simp add: bounds_is_nan_def bounds_eq_def Bounds0_def Point0_def)

text \<open>
  The claim as stated fails: the union of the bounds from (1,1,1) to (2,2,2) with the
  zero bounds reaches down to the origin, so it is neither the bounds themselves nor the
  union taken in the other order.
\<close>

theorem bounds_union_zero_right_counterexample:
  "\<not> bounds_eq
       (bounds_plus (Bounds (Point (Fin 1) (Fin 1) (Fin 1)) (Point (Fin 2) (Fin 2) (Fin 2))) Bounds0)
       (Bounds (Point (Fin 1) (Fin 1) (Fin 1)) (Point (Fin 2) (Fin 2) (Fin 2)))
 \<and> \<not> bounds_eq
       (bounds_plus (Bounds (Point (Fin 1) (Fin 1) (Fin 1)) (Point (Fin 2) (Fin 2) (Fin 2))) Bounds0)
       (bounds_plus Bounds0 (Bounds (Point (Fin 1) (Fin 1) (Fin 1)) (Point (Fin 2) (Fin 2) (Fin 2))))"
  by (simp add: bounds_plus_def Bounds0_def Point0_def bounds_eq_def fgt_def)

section \<open>Properties of geometries\<close>

lemma unat_shift_index_le: "unat (shift_index n i) \<le> unat i + n"
  unfolding shift_index_def unat_of_nat by (rule mod_less_eq_dividend)

lemma unat_shift_index_exact: "unat i + n < 2 ^ 32 \<Longrightarrow> unat (shift_index n i) = unat i + n"
  unfolding shift_index_def unat_of_nat by simp

lemma length_vertexes_combine:
  "length (m_vertexes (combine_with a b)) = length (m_vertexes a) + length (m_vertexes b)"
  by (simp add: combine_with_def Geometry_def Let_def)

lemma triangles_combine:
  "m_triangles (combine_with a b) =
     m_triangles a @
     map (\<lambda>(i, j, k). (shift_index (length (m_vertexes a)) i,
                        shift_index (length (m_vertexes a)) j,
                        shift_index (length (m_vertexes a)) k)) (m_triangles b)"
  by (simp add: combine_with_def Geometry_def Let_def)

lemma triangles_below_mono: "triangles_below n ts \<Longrightarrow> n \<le> m \<Longrightarrow> triangles_below m ts"
  by (auto simp: triangles_below_def list_all_iff)

lemma triangles_below_shift:
  assumes "triangles_below m ts"
  shows "triangles_below (n + m)
           (map (\<lambda>(i, j, k). (shift_index n i, shift_index n j, shift_index n k)) ts)"
proof -
  have "unat (shift_index n i) < n + m" if "unat i < m" for i
    using that unat_shift_index_le [of n i] by linarith
  with assms show ?thesis
    by (auto simp: triangles_below_def list_all_iff)
qed

text \<open>
  Claim C10.  When every triangle index of each operand is below that operand's vertex
  count, \<open>combine_with\<close> returns a geometry whose vertex count is the sum of the two
  counts and whose triangle indices are all below it.  The triangles are those of the
  first operand followed by those of the second, each index shifted by the first
  operand's vertex count in \<open>unsigned int\<close> arithmetic; the shift is the exact sum
  whenever the combined count fits in 32 bits.
\<close>

theorem combine_with_indices_in_range:
  assumes "triangles_below (length (m_vertexes a)) (m_triangles a)"
    and "triangles_below (length (m_vertexes b)) (m_triangles b)"
  shows "length (m_vertexes (combine_with a b)) = length (m_vertexes a) + length (m_vertexes b)
       \<and> triangles_below (length (m_vertexes (combine_with a b))) (m_triangles (combine_with a b))
       \<and> take (length (m_triangles a)) (m_triangles (combine_with a b)) = m_triangles a
       \<and> drop (length (m_triangles a)) (m_triangles (combine_with a b)) =
           map (\<lambda>(i, j, k). (shift_index (length (m_vertexes a)) i,
                              shift_index (length (m_vertexes a)) j,
                              shift_index (length (m_vertexes a)) k)) (m_triangles b)
       \<and> (length (m_vertexes a) + length (m_vertexes b) \<le> 2 ^ 32 \<longrightarrow>
            (\<forall>(i, j, k) \<in> set (m_triangles b).
               unat (shift_index (length (m_vertexes a)) i) = unat i + length (m_vertexes a)
             \<and> unat (shift_index (length (m_vertexes a)) j) = unat j + length (m_vertexes a)
             \<and> unat (shift_index (length (m_vertexes a)) k) = unat k + length (m_vertexes a)))"
proof (intro conjI)
  show "length (m_vertexes (combine_with a b)) = length (m_vertexes a) + length (m_vertexes b)"
    by (rule length_vertexes_combine)
  have "triangles_below (length (m_vertexes a) + length (m_vertexes b)) (m_triangles a)"
    using assms(1) by (rule triangles_below_mono) simp
  moreover note triangles_below_shift [OF assms(2), of "length (m_vertexes a)"]
  ultimately show "triangles_below (length (m_vertexes (combine_with a b)))
      (m_triangles (combine_with a b))"
    by (simp add: length_vertexes_combine triangles_combine triangles_below_def)
  show "take (length (m_triangles a)) (m_triangles (combine_with a b)) = m_triangles a"
    by (simp add: triangles_combine)
  show "drop (length (m_triangles a)) (m_triangles (combine_with a b)) =
           map (\<lambda>(i, j, k). (shift_index (length (m_vertexes a)) i,
                              shift_index (length (m_vertexes a)) j,
                              shift_index (length (m_vertexes a)) k)) (m_triangles b)"
    by (simp add: triangles_combine)
  show "length (m_vertexes a) + length (m_vertexes b) \<le> 2 ^ 32 \<longrightarrow>
            (\<forall>(i, j, k) \<in> set (m_triangles b).
               unat (shift_index (length (m_vertexes a)) i) = unat i + length (m_vertexes a)
             \<and> unat (shift_index (length (m_vertexes a)) j) = unat j + length (m_vertexes a)
             \<and> unat (shift_index (length (m_vertexes a)) k) = unat k + length (m_vertexes a))"
  proof (intro impI)
    assume le: "length (m_vertexes a) + length (m_vertexes b) \<le> 2 ^ 32"
    have "unat (shift_index (length (m_vertexes a)) i) = unat i + length (m_vertexes a)"
      if "unat i < length (m_vertexes b)" for i
      using that le by (intro unat_shift_index_exact) linarith
    with assms(2) show "\<forall>(i, j, k) \<in> set (m_triangles b).
               unat (shift_index (length (m_vertexes a)) i) = unat i + length (m_vertexes a)
             \<and> unat (shift_index (length (m_vertexes a)) j) = unat j + length (m_vertexes a)
             \<and> unat (shift_index (length (m_vertexes a)) k) = unat k + length (m_vertexes a)"
      by (auto simp: triangles_below_def list_all_iff)
  qed
qed

text \<open>
  A triangle of three vertexes combined with a degenerate triangle on two vertexes: five
  vertexes, and the second triangle's indices 0, 1, 1 become 3, 4, 4.
\<close>

theorem combine_with_indices_in_range_witness:
  "m_triangles
     (combine_with
        (Geometry [Point (Fin 0) (Fin 0) (Fin 0), Point (Fin 1) (Fin 0) (Fin 0),
                   Point (Fin 0) (Fin 1) (Fin 0)]
           [(0, 1, 2)] (Point (Fin 0) (Fin 0) (Fin 0)) default_color (Fin 0) PInf [])
        (Geometry [Point (Fin 0) (Fin 0) (Fin 0), Point (Fin 1) (Fin 0) (Fin 0)]
           [(0, 1, 1)] (Point (Fin 2) (Fin 0) (Fin 0)) default_color (Fin 0) PInf []))
     = [(0, 1, 2), (3, 4, 4)]
 \<and> length (m_vertexes
     (combine_with
        (Geometry [Point (Fin 0) (Fin 0) (Fin 0), Point (Fin 1) (Fin 0) (Fin 0),
                   Point (Fin 0) (Fin 1) (Fin 0)]
           [(0, 1, 2)] (Point (Fin 0) (Fin 0) (Fin 0)) default_color (Fin 0) PInf [])
        (Geometry [Point (Fin 0) (Fin 0) (Fin 0), Point (Fin 1) (Fin 0) (Fin 0)]
           [(0, 1, 1)] (Point (Fin 2) (Fin 0) (Fin 0)) default_color (Fin 0) PInf []))) = 5"
  using combine_with_indices_in_range
    [where a = "Geometry [Point (Fin 0) (Fin 0) (Fin 0), Point (Fin 1) (Fin 0) (Fin 0),
                   Point (Fin 0) (Fin 1) (Fin 0)]
           [(0, 1, 2)] (Point (Fin 0) (Fin 0) (Fin 0)) default_color (Fin 0) PInf []"
       and b = "Geometry [Point (Fin 0) (Fin 0) (Fin 0), Point (Fin 1) (Fin 0) (Fin 0)]
           [(0, 1, 1)] (Point (Fin 2) (Fin 0) (Fin 0)) default_color (Fin 0) PInf []"]
  by (simp add: Geometry_def triangles_below_def triangles_combine length_vertexes_combine
      shift_index_def)

section \<open>Properties of paths\<close>

lemma parse_parts_valid:
  "parse_parts rest acc = Inr ps \<Longrightarrow> list_all is_valid_path_part acc \<Longrightarrow>
   list_all is_valid_path_part ps"
proof (induction rest acc rule: parse_parts.induct)
  case (1 rest acc)
  show ?case
  proof (cases "CHR ''.'' \<in> set rest")
    case True
    let ?part = "takeWhile (\<lambda>c. c \<noteq> CHR ''.'') rest"
    from "1.prems"(1) True have ok: "?part \<noteq> []" "is_valid_path_part ?part"
      and rec: "parse_parts (drop (Suc (length ?part)) rest) (acc @ [?part]) = Inr ps"
      by (auto simp: parse_parts.simps [of rest acc] Let_def split: if_splits)
    show ?thesis
      using "1.IH" [OF True refl ok(1) _ rec] ok(2) "1.prems"(2) by simp
  next
    case False
    with "1.prems" show ?thesis
      by (auto simp: parse_parts.simps [of rest acc] split: if_splits)
  qed
qed

lemma parse_parts_error: "parse_parts rest acc = Inl e \<Longrightarrow> e = InvalidPath"
proof (induction rest acc rule: parse_parts.induct)
  case (1 rest acc)
  show ?case
  proof (cases "CHR ''.'' \<in> set rest")
    case True
    let ?part = "takeWhile (\<lambda>c. c \<noteq> CHR ''.'') rest"
    show ?thesis
    proof (cases "?part \<noteq> [] \<and> is_valid_path_part ?part")
      case ok: True
      with "1.prems" True
      have "parse_parts (drop (Suc (length ?part)) rest) (acc @ [?part]) = Inl e"
        by (simp add: parse_parts.simps [of rest acc] Let_def)
      with "1.IH" [OF True refl] ok show ?thesis by simp
    next
      case False
      with "1.prems" True show ?thesis
        by (auto simp: parse_parts.simps [of rest acc] Let_def split: if_splits)
    qed
  next
    case False
    with "1.prems" show ?thesis
      by (auto simp: parse_parts.simps [of rest acc] split: if_splits)
  qed
qed

lemma drop_after_part: "rest = p @ c # ds \<Longrightarrow> drop (Suc (length p)) rest = ds"
  by simp

lemma join_after_part:
  "rest = p @ c # ds \<Longrightarrow>
   concat (map ((#) c) (acc @ [p])) @ c # ds = concat (map ((#) c) acc) @ c # rest"
  by simp

lemma parse_parts_join:
  "parse_parts rest acc = Inr ps \<Longrightarrow>
   concat (map ((#) CHR ''.'') ps) = concat (map ((#) CHR ''.'') acc) @ CHR ''.'' # rest"
proof (induction rest acc rule: parse_parts.induct)
  case (1 rest acc)
  show ?case
  proof (cases "CHR ''.'' \<in> set rest")
    case True
    let ?part = "takeWhile (\<lambda>c. c \<noteq> CHR ''.'') rest"
    from "1.prems"(1) True have ok: "?part \<noteq> []" "is_valid_path_part ?part"
      and rec: "parse_parts (drop (Suc (length ?part)) rest) (acc @ [?part]) = Inr ps"
      by (auto simp: parse_parts.simps [of rest acc] Let_def split: if_splits)
    have dw: "dropWhile (\<lambda>c. c \<noteq> CHR ''.'') rest \<noteq> []"
      using True by (simp add: dropWhile_eq_Nil_conv)
    then obtain d ds where dd: "dropWhile (\<lambda>c. c \<noteq> CHR ''.'') rest = d # ds"
      by (cases "dropWhile (\<lambda>c. c \<noteq> CHR ''.'') rest") auto
    then have d: "d = CHR ''.''"
      using hd_dropWhile [OF dw] by simp
    have "rest = ?part @ dropWhile (\<lambda>c. c \<noteq> CHR ''.'') rest" by simp
    then have split: "rest = ?part @ CHR ''.'' # ds"
      unfolding dd d .
    have "concat (map ((#) CHR ''.'') ps) =
          concat (map ((#) CHR ''.'') (acc @ [?part])) @ CHR ''.'' # ds"
      using "1.IH" [OF True refl ok(1) _ rec] ok(2) unfolding drop_after_part [OF split] by simp
    then show ?thesis
      unfolding join_after_part [OF split] .
  next
    case False
    with "1.prems" show ?thesis
      by (auto simp: parse_parts.simps [of rest acc] split: if_splits)
  qed
qed

text \<open>
  Claim C6, as the code has it.  The construction of a path from a dot string checks
  every part against the part regex: when it succeeds every part of the path matches,
  and the parts are the pieces of the string between the dots (so a piece that does not
  match makes it fail); when it fails the error is \<open>InvalidPath\<close>.  The constructors from
  a list of parts check nothing.
\<close>

theorem path_of_string_parts_valid:
  "(path_of_string s = Inr p \<longrightarrow>
      list_all is_valid_path_part (parts p)
    \<and> (s \<noteq> [] \<and> s \<noteq> ''.'' \<longrightarrow>
         concat (map ((#) CHR ''.'') (parts p)) = (if hd s = CHR ''.'' then s else CHR ''.'' # s)))
 \<and> (path_of_string s = Inl e \<longrightarrow> e = InvalidPath)"
proof (intro conjI impI)
  assume "path_of_string s = Inr p"
  then show "list_all is_valid_path_part (parts p)"
    by (auto simp: path_of_string_def dest!: parse_parts_valid split: if_splits sum.splits)
next
  assume ok: "path_of_string s = Inr p" and ne: "s \<noteq> [] \<and> s \<noteq> ''.''"
  show "concat (map ((#) CHR ''.'') (parts p)) = (if hd s = CHR ''.'' then s else CHR ''.'' # s)"
  proof (cases "hd s = CHR ''.''")
    case True
    with ok ne have "parse_parts (drop 1 s) [] = Inr (parts p)"
      by (auto simp: path_of_string_def split: sum.splits)
    from parse_parts_join [OF this] True ne show ?thesis
      by (cases s) auto
  next
    case False
    with ok ne have "parse_parts s [] = Inr (parts p)"
      by (auto simp: path_of_string_def split: sum.splits)
    from parse_parts_join [OF this] False show ?thesis
      by simp
  qed
next
  assume "path_of_string s = Inl e"
  then show "e = InvalidPath"
    by (auto simp: path_of_string_def dest!: parse_parts_error split: if_splits sum.splits)
qed

theorem path_of_string_parts_valid_witness:
  "path_of_string ''.a.b-c'' = Inr (Path [''a'', ''b-c''])
 \<and> list_all is_valid_path_part [''a'', ''b-c'']
 \<and> path_of_string ''a..b'' = Inl InvalidPath"
  using path_of_string_parts_valid [where s = "''.a.b-c''" and p = "Path [''a'', ''b-c'']"]
    path_of_string_parts_valid [where s = "''a..b''" and e = InvalidPath]
  by (simp add: path_of_string_def parse_parts.simps is_valid_path_part_def valid_path_char_def)

text \<open>
  The claim as stated fails: the path built from the one-element list holding \<open>a b\<close>
  exists, and its part does not match the regex.
\<close>

theorem path_from_parts_unchecked_counterexample:
  "parts (Path [''a b'']) = [''a b''] \<and> \<not> list_all is_valid_path_part (parts (Path [''a b'']))"
  by (simp add: is_valid_path_part_def valid_path_char_def)

section \<open>Properties of the node tree\<close>

text \<open>
  Claim C3, as the code has it.  On a node with no children and no templates: add a
  template \<open>t\<close>, construct a child \<open>a\<close>, construct a child \<open>c\<close>, then make template \<open>t\<close>
  as \<open>b\<close>, the three names being different.  The template was added when the node had
  no children, so its insertion index is 0 and the children are in the order
  \<open>[b, a, c]\<close>.
\<close>

theorem template_added_first_is_made_first:
  assumes "get_name ea \<noteq> get_name ec" and "b \<noteq> get_name ea" and "b \<noteq> get_name ec"
  shows "(case construct_child (construct_template (Node e [] [] []) et) ea of
            Inl err \<Rightarrow> Inl err
          | Inr n1 \<Rightarrow>
              (case construct_child n1 ec of
                 Inl err \<Rightarrow> Inl err
               | Inr n2 \<Rightarrow>
                   (case try_make_template n2 (get_name et) b of
                      Inl err \<Rightarrow> Inl err
                    | Inr n3 \<Rightarrow> Inr (children_names n3))))
         = Inr [b, get_name ea, get_name ec]"
  using assms
  by (simp add: construct_child_def construct_template_def add_child_def add_template_def
      node_construct_def try_make_template_def node_name_def children_names_def set_name_def)

theorem template_added_first_is_made_first_witness:
  "(case construct_child
           (construct_template (Node (Element '''' []) [] [] [])
              (Element ''t'' [(''kind'', ''box'')]))
           (Element ''a'' []) of
      Inl err \<Rightarrow> Inl err
    | Inr n1 \<Rightarrow>
        (case construct_child n1 (Element ''c'' []) of
           Inl err \<Rightarrow> Inl err
         | Inr n2 \<Rightarrow>
             (case try_make_template n2 ''t'' ''b'' of
                Inl err \<Rightarrow> Inl err
              | Inr n3 \<Rightarrow> Inr (children_names n3))))
   = Inr [''b'', ''a'', ''c'']"
  using template_added_first_is_made_first
    [where ea = "Element ''a'' []" and ec = "Element ''c'' []" and b = "''b''"
       and e = "Element '''' []" and et = "Element ''t'' [(''kind'', ''box'')]"]
  by (simp cong: sum.case_cong)

text \<open>The order the claim states, \<open>[a, b, c]\<close>, is not the order of the children.\<close>

theorem template_scenario_order_counterexample:
  "(case construct_child
           (construct_template (Node (Element '''' []) [] [] [])
              (Element ''t'' [(''kind'', ''box'')]))
           (Element ''a'' []) of
      Inl err \<Rightarrow> Inl err
    | Inr n1 \<Rightarrow>
        (case construct_child n1 (Element ''c'' []) of
           Inl err \<Rightarrow> Inl err
         | Inr n2 \<Rightarrow>
             (case try_make_template n2 ''t'' ''b'' of
                Inl err \<Rightarrow> Inl err
              | Inr n3 \<Rightarrow> Inr (children_names n3))))
   \<noteq> Inr [''a'', ''b'', ''c'']"
  by (simp add: construct_child_def construct_template_def add_child_def add_template_def
      node_construct_def try_make_template_def node_name_def children_names_def set_name_def)

section \<open>Properties of the event server\<close>

lemma index_of_next_event_ge: "index \<le> index_of_next_event events fltr index"
proof (induction events fltr index rule: index_of_next_event.induct)
  case (1 events fltr index)
  show ?case
  proof (cases "index < length events \<and> fltr = SkipNonDrawable
                \<and> \<not> should_draw (ev_geometry (events ! index))")
    case True
    with "1.IH" have "index + 1 \<le> index_of_next_event events fltr (index + 1)" by simp
    moreover have "index_of_next_event events fltr index = index_of_next_event events fltr (index + 1)"
      using True by (subst index_of_next_event.simps) simp
    ultimately show ?thesis by simp
  next
    case False
    then have "index_of_next_event events fltr index = index"
      by (subst index_of_next_event.simps) auto
    then show ?thesis by simp
  qed
qed

lemma try_pop_event_None: "try_pop_event token s = Inr (None, s') \<Longrightarrow> s' = s"
  by (auto simp: try_pop_event_def pop_event_def Let_def split: sum.splits if_splits option.splits)

lemma try_pop_event_Some:
  assumes "try_pop_event token s = Inr (Some (i, e), s')"
  shows "cursor s token \<le> i" and "i < length (m_events s)" and "e = m_events s ! i"
    and "m_events s' = m_events s" and "cursor s' token = i + 1"
    and "t \<noteq> token \<Longrightarrow> cursor s' t = cursor s t"
  using assms index_of_next_event_ge
  by (auto simp: try_pop_event_def pop_event_def event_available_def cursor_def Let_def
      split: sum.splits if_splits option.splits)

lemma cursor_add_event: "cursor (add_event e s) t = cursor s t"
  by (simp add: cursor_def add_event_def)

lemma cursor_request: "cursor (snd (request_listener fltr s)) t = cursor s t"
  by (simp add: cursor_def request_listener_def Let_def)

lemma popped_indices_Cons:
  "popped_indices t ((t', i, e) # l) = (if t' = t then i # popped_indices t l else popped_indices t l)"
  by (simp add: popped_indices_def)

lemma run_server_TryPop_Some:
  "try_pop_event token s = Inr (Some (i, e), s') \<Longrightarrow>
   run_server (TryPop token # ops) s =
     ((token, i, e) # fst (run_server ops s'), snd (run_server ops s'))"
  by (simp split: prod.splits)

lemma popped_after_cursor:
  "i \<in> set (popped_indices t (fst (run_server ops s))) \<Longrightarrow> cursor s t \<le> i"
proof (induction ops s arbitrary: i rule: run_server.induct)
  case (1 s)
  then show ?case by (simp add: popped_indices_def)
next
  case (2 e ops s)
  then show ?case by (simp add: cursor_add_event)
next
  case (3 fltr ops s)
  then show ?case by (simp add: cursor_request)
next
  case (4 token ops s)
  show ?case
  proof (cases "try_pop_event token s")
    case (Inl err)
    with 4 show ?thesis by simp
  next
    case (Inr r)
    obtain res s' where r: "r = (res, s')" by (cases r)
    show ?thesis
    proof (cases res)
      case None
      with Inr r have "s' = s" by (auto dest: try_pop_event_None)
      with 4 Inr r None show ?thesis by simp
    next
      case (Some ie)
      obtain j e where ie: "ie = (j, e)" by (cases ie)
      note pop = try_pop_event_Some [OF Inr [unfolded r Some ie]]
      from "4.prems"
      have mem: "i \<in> set (popped_indices t ((token, j, e) # fst (run_server ops s')))"
        unfolding run_server_TryPop_Some [OF Inr [unfolded r Some ie]] by simp
      show ?thesis
      proof (cases "token = t")
        case True
        from mem True have "i = j \<or> i \<in> set (popped_indices t (fst (run_server ops s')))"
          by (simp add: popped_indices_Cons)
        then show ?thesis
        proof
          assume "i = j" with pop(1) True show ?thesis by simp
        next
          assume "i \<in> set (popped_indices t (fst (run_server ops s')))"
          from "4.IH"(3) [OF Inr r [symmetric] Some ie [symmetric] this] pop(1,5) True show ?thesis by simp
        qed
      next
        case False
        with mem have "i \<in> set (popped_indices t (fst (run_server ops s')))"
          by (simp add: popped_indices_Cons)
        from "4.IH"(3) [OF Inr r [symmetric] Some ie [symmetric] this] pop(6) [of t] False show ?thesis by simp
      qed
    qed
  qed
qed

lemma popped_sorted: "sorted_wrt (<) (popped_indices t (fst (run_server ops s)))"
proof (induction ops s rule: run_server.induct)
  case (1 s)
  then show ?case by (simp add: popped_indices_def)
next
  case (2 e ops s)
  then show ?case by simp
next
  case (3 fltr ops s)
  then show ?case by simp
next
  case (4 token ops s)
  show ?case
  proof (cases "try_pop_event token s")
    case (Inl err)
    with 4 show ?thesis by simp
  next
    case (Inr r)
    obtain res s' where r: "r = (res, s')" by (cases r)
    show ?thesis
    proof (cases res)
      case None
      with 4 Inr r show ?thesis by simp
    next
      case (Some ie)
      obtain j e where ie: "ie = (j, e)" by (cases ie)
      note pop = try_pop_event_Some [OF Inr [unfolded r Some ie]]
      have eq: "fst (run_server (TryPop token # ops) s) = (token, j, e) # fst (run_server ops s')"
        unfolding run_server_TryPop_Some [OF Inr [unfolded r Some ie]] by simp
      have IH: "sorted_wrt (<) (popped_indices t (fst (run_server ops s')))"
        using "4.IH"(3) [OF Inr r [symmetric] Some ie [symmetric]] .
      show ?thesis
      proof (cases "token = t")
        case True
        have "j < i" if "i \<in> set (popped_indices t (fst (run_server ops s')))" for i
          using popped_after_cursor [OF that] pop(5) True by simp
        with IH True show ?thesis unfolding eq by (simp add: popped_indices_Cons)
      next
        case False
        with IH show ?thesis unfolding eq by (simp add: popped_indices_Cons)
      qed
    qed
  qed
qed

lemma run_server_events:
  "\<exists>ext. m_events (snd (run_server ops s)) = m_events s @ ext"
proof (induction ops s rule: run_server.induct)
  case (1 s)
  then show ?case by simp
next
  case (2 e ops s)
  then show ?case by (auto simp: add_event_def)
next
  case (3 fltr ops s)
  then show ?case by (auto simp: request_listener_def Let_def)
next
  case (4 token ops s)
  show ?case
  proof (cases "try_pop_event token s")
    case (Inl err)
    with 4 show ?thesis by simp
  next
    case (Inr r)
    obtain res s' where r: "r = (res, s')" by (cases r)
    show ?thesis
    proof (cases res)
      case None
      with Inr r have "s' = s" by (auto dest: try_pop_event_None)
      with 4 Inr r None show ?thesis by simp
    next
      case (Some ie)
      obtain j e where ie: "ie = (j, e)" by (cases ie)
      note pop = try_pop_event_Some [OF Inr [unfolded r Some ie]]
      from "4.IH"(3) [OF Inr r [symmetric] Some ie [symmetric]] pop(4) show ?thesis
        unfolding run_server_TryPop_Some [OF Inr [unfolded r Some ie]] by simp
    qed
  qed
qed

lemma popped_events:
  "(t, i, e) \<in> set (fst (run_server ops s)) \<Longrightarrow>
   i < length (m_events (snd (run_server ops s))) \<and> m_events (snd (run_server ops s)) ! i = e"
proof (induction ops s rule: run_server.induct)
  case (1 s)
  then show ?case by simp
next
  case (2 e ops s)
  then show ?case by simp
next
  case (3 fltr ops s)
  then show ?case by simp
next
  case (4 token ops s)
  show ?case
  proof (cases "try_pop_event token s")
    case (Inl err)
    with 4 show ?thesis by simp
  next
    case (Inr r)
    obtain res s' where r: "r = (res, s')" by (cases r)
    show ?thesis
    proof (cases res)
      case None
      with 4 Inr r show ?thesis by simp
    next
      case (Some ie)
      obtain j e' where ie: "ie = (j, e')" by (cases ie)
      note pop = try_pop_event_Some [OF Inr [unfolded r Some ie]]
      have eq: "run_server (TryPop token # ops) s =
                ((token, j, e') # fst (run_server ops s'), snd (run_server ops s'))"
        by (rule run_server_TryPop_Some [OF Inr [unfolded r Some ie]])
      from "4.prems" eq
      have "(t, i, e) = (token, j, e') \<or> (t, i, e) \<in> set (fst (run_server ops s'))" by simp
      then show ?thesis
      proof
        assume "(t, i, e) = (token, j, e')"
        moreover obtain ext where "m_events (snd (run_server ops s')) = m_events s' @ ext"
          using run_server_events by blast
        ultimately show ?thesis
          unfolding eq using pop(2,3,4) by (simp add: nth_append)
      next
        assume "(t, i, e) \<in> set (fst (run_server ops s'))"
        from "4.IH"(3) [OF Inr r [symmetric] Some ie [symmetric] this] show ?thesis
          unfolding eq by simp
      qed
    qed
  qed
qed

text \<open>
  Claim C8.  In every run of appends, pops and registrations, from every state of the
  server, the indices of the events that the pops of one listener return are strictly
  increasing, so no index occurs twice; each returned event is the event at its index in
  the append-order sequence of the server.
\<close>

theorem popped_indices_strictly_increasing:
  "sorted_wrt (<) (popped_indices token (fst (run_server ops s)))
 \<and> distinct (popped_indices token (fst (run_server ops s)))
 \<and> (\<forall>(t, i, e) \<in> set (fst (run_server ops s)).
       i < length (m_events (snd (run_server ops s))) \<and> m_events (snd (run_server ops s)) ! i = e)"
proof (intro conjI)
  show sorted: "sorted_wrt (<) (popped_indices token (fst (run_server ops s)))"
    by (rule popped_sorted)
  then show "distinct (popped_indices token (fst (run_server ops s)))"
    by (simp add: strict_sorted_iff)
next
  show "\<forall>(t, i, e) \<in> set (fst (run_server ops s)).
       i < length (m_events (snd (run_server ops s))) \<and> m_events (snd (run_server ops s)) ! i = e"
    using popped_events by blast
qed


text \<open>
  Two listeners, the second one skipping events that are not drawable, and two events of
  which the first is not drawable: the first listener pops the indices 0 and 1, the
  second only the index 1.
\<close>

theorem popped_indices_strictly_increasing_witness:
  "popped_indices 0
     (fst (run_server
        [Request ReceiveAll, Request SkipNonDrawable,
         Append \<lparr> ev_path = Path [''a''], ev_geometry = geometry_empty Point0 Bounds0, ev_type = Add \<rparr>,
         Append \<lparr> ev_path = Path [''b''],
                  ev_geometry = Geometry [Point0] [] Point0 default_color (Fin 0) PInf [],
                  ev_type = Add \<rparr>,
         TryPop 1, TryPop 0, TryPop 0, TryPop 1]
        \<lparr> m_events = [], m_listener_pos = Map.empty, m_token_counter = 0 \<rparr>)) = [0, 1]
 \<and> popped_indices 1
     (fst (run_server
        [Request ReceiveAll, Request SkipNonDrawable,
         Append \<lparr> ev_path = Path [''a''], ev_geometry = geometry_empty Point0 Bounds0, ev_type = Add \<rparr>,
         Append \<lparr> ev_path = Path [''b''],
                  ev_geometry = Geometry [Point0] [] Point0 default_color (Fin 0) PInf [],
                  ev_type = Add \<rparr>,
         TryPop 1, TryPop 0, TryPop 0, TryPop 1]
        \<lparr> m_events = [], m_listener_pos = Map.empty, m_token_counter = 0 \<rparr>)) = [1]"
  using popped_indices_strictly_increasing
    [where token = 0 and ops = "[Request ReceiveAll, Request SkipNonDrawable,
         Append \<lparr> ev_path = Path [''a''], ev_geometry = geometry_empty Point0 Bounds0, ev_type = Add \<rparr>,
         Append \<lparr> ev_path = Path [''b''],
                  ev_geometry = Geometry [Point0] [] Point0 default_color (Fin 0) PInf [],
                  ev_type = Add \<rparr>,
         TryPop 1, TryPop 0, TryPop 0, TryPop 1]"
       and s = "\<lparr> m_events = [], m_listener_pos = Map.empty, m_token_counter = 0 \<rparr>"]
  by (simp add: request_listener_def add_event_def try_pop_event_def event_available_def
      pop_event_def index_of_next_event.simps should_draw_def geometry_empty_def Geometry_def
      popped_indices_def Let_def)


section \<open>Properties of the render tree\<close>

lemma comparison_loop_less:
  "length as = length bs \<Longrightarrow> (comparison_loop as bs < 0) = (as < bs)"
  by (induction as bs rule: list_induct2) auto

lemma comparison_loop_zero:
  "length as = length bs \<Longrightarrow> (comparison_loop as bs = 0) = (as = bs)"
  by (induction as bs rule: list_induct2) auto

lemma path_less_iff:
  "path_less p q =
     (length (parts p) < length (parts q) \<or> length (parts p) = length (parts q) \<and> parts p < parts q)"
  by (auto simp: path_less_def comparison_def path_size_def Let_def comparison_loop_less)

lemma path_less_asym: "path_less p q \<Longrightarrow> \<not> path_less q p"
  by (auto simp: path_less_iff)

lemma path_less_irrefl: "\<not> path_less p p"
  by (simp add: path_less_iff)

lemma path_less_trans: "path_less p q \<Longrightarrow> path_less q r \<Longrightarrow> path_less p r"
  by (auto simp: path_less_iff)

lemma same_key_iff: "same_key p q = (p = q)"
  by (cases p; cases q) (auto simp: same_key_def path_less_iff)

lemma path_less_total: "path_less p q \<or> p = q \<or> path_less q p"
  using same_key_iff [of p q] by (auto simp: same_key_def)

lemma geometry_differences_tags:
  "(p, tag) \<in> set (geometry_differences fp g h) \<Longrightarrow> tag \<noteq> FirstMissing \<and> tag \<noteq> SecondMissing"
  by (auto simp: geometry_differences_def split: if_splits)

lemma differences_loop_mirror:
  "((p, FirstMissing) \<in> set (differences_loop xs ys)) = ((p, SecondMissing) \<in> set (differences_loop ys xs))
 \<and> ((p, SecondMissing) \<in> set (differences_loop xs ys)) = ((p, FirstMissing) \<in> set (differences_loop ys xs))"
proof (induction xs ys rule: differences_loop.induct)
  case 1
  then show ?case by simp
next
  case (2 first_path first_geometry first_rest)
  then show ?case by simp
next
  case (3 last_path last_geometry last_rest)
  then show ?case by simp
next
  case (4 first_path first_geometry first_rest last_path last_geometry last_rest)
  consider (less) "path_less first_path last_path"
    | (greater) "\<not> path_less first_path last_path" "path_less last_path first_path"
    | (same) "\<not> path_less first_path last_path" "\<not> path_less last_path first_path"
    by blast
  then show ?case
  proof cases
    case less
    then have "\<not> path_less last_path first_path" by (rule path_less_asym)
    with less "4.IH"(1) show ?thesis by auto
  next
    case greater
    with "4.IH"(2) show ?thesis by auto
  next
    case same
    with "4.IH"(3) show ?thesis
      by (auto dest: geometry_differences_tags)
  qed
qed

text \<open>
  Claim C7.  For all render trees \<open>a\<close> and \<open>b\<close>, the paths that
  \<open>a.differences_from(b)\<close> reports as \<open>FirstMissing\<close> are the paths that
  \<open>b.differences_from(a)\<close> reports as \<open>SecondMissing\<close>.
\<close>

theorem differences_missing_symmetric:
  "paths_tagged FirstMissing (differences_from a b) = paths_tagged SecondMissing (differences_from b a)"
  using differences_loop_mirror [of _ "m_rendered a" "m_rendered b"]
  by (auto simp: paths_tagged_def differences_from_def)


text \<open>
  A tree holding \<open>.a\<close> against a tree holding \<open>.a\<close> and \<open>.b\<close>: the path \<open>.b\<close> is
  missing in the first.
\<close>

theorem differences_missing_symmetric_witness:
  "paths_tagged FirstMissing
     (differences_from
        \<lparr> m_insertion_order = [Path [''a'']],
          m_rendered = [(Path [''a''], geometry_empty Point0 Bounds0)] \<rparr>
        \<lparr> m_insertion_order = [Path [''b''], Path [''a'']],
          m_rendered = [(Path [''a''], geometry_empty Point0 Bounds0),
                        (Path [''b''], geometry_empty Point0 Bounds0)] \<rparr>)
   = {Path [''b'']}
 \<and> paths_tagged SecondMissing
     (differences_from
        \<lparr> m_insertion_order = [Path [''b''], Path [''a'']],
          m_rendered = [(Path [''a''], geometry_empty Point0 Bounds0),
                        (Path [''b''], geometry_empty Point0 Bounds0)] \<rparr>
        \<lparr> m_insertion_order = [Path [''a'']],
          m_rendered = [(Path [''a''], geometry_empty Point0 Bounds0)] \<rparr>)
   = {Path [''b'']}"
  using differences_missing_symmetric
    [where a = "\<lparr> m_insertion_order = [Path [''a'']],
          m_rendered = [(Path [''a''], geometry_empty Point0 Bounds0)] \<rparr>"
       and b = "\<lparr> m_insertion_order = [Path [''b''], Path [''a'']],
          m_rendered = [(Path [''a''], geometry_empty Point0 Bounds0),
                        (Path [''b''], geometry_empty Point0 Bounds0)] \<rparr>"]
  by (auto simp add: paths_tagged_def differences_from_def path_less_iff
      geometry_differences_def geometry_empty_def Geometry_def Point0_def Bounds0_def
      bounds_eq_def)

lemma map_find_None_iff: "(map_find k m = None) = (k \<notin> fst ` set m)"
proof (induction m)
  case Nil
  then show ?case by simp
next
  case (Cons a m)
  obtain k' v where a: "a = (k', v)" by (cases a)
  from Cons show ?case by (cases "k = k'") (simp_all add: a same_key_iff)
qed

lemma keys_insert_or_assign:
  "fst ` set (map_insert_or_assign k v m) = insert k (fst ` set m)"
proof (induction m)
  case Nil
  then show ?case by simp
next
  case (Cons a m)
  obtain k' v' where a: "a = (k', v')" by (cases a)
  have "k = k'" if "\<not> path_less k k'" "\<not> path_less k' k"
    using that same_key_iff [of k k'] by (simp add: same_key_def)
  with Cons show ?case by (auto simp: a)
qed

lemma keys_map_modify: "map fst (map_modify k f m) = map fst m"
  by (induction m) (auto simp: map_modify_def)

lemma update_order:
  "m_insertion_order (update p g t) =
     (if p \<in> tree_keys t then m_insertion_order t else m_insertion_order t @ [p])"
  by (simp add: update_def map_find_None_iff tree_keys_def)

lemma update_keys: "tree_keys (update p g t) = insert p (tree_keys t)"
  by (simp add: update_def tree_keys_def keys_insert_or_assign)

lemma tree_inv_update: "tree_inv t \<Longrightarrow> tree_inv (update p g t)"
  by (auto simp: tree_inv_def update_order update_keys)

lemma move_impl_shape:
  "m_insertion_order (move_parent_and_descendants_by_impl p by_pos ex xp t) = m_insertion_order t"
  "tree_keys (move_parent_and_descendants_by_impl p by_pos ex xp t) = tree_keys t"
proof -
  show "m_insertion_order (move_parent_and_descendants_by_impl p by_pos ex xp t) = m_insertion_order t"
    by (simp add: move_parent_and_descendants_by_impl_def Let_def)
  have "map fst (m_rendered (move_parent_and_descendants_by_impl p by_pos ex xp t)) = map fst (m_rendered t)"
    by (auto simp: move_parent_and_descendants_by_impl_def Let_def keys_map_modify comp_def
        case_prod_unfold if_distrib [of fst] cong: if_cong)
  then show "tree_keys (move_parent_and_descendants_by_impl p by_pos ex xp t) = tree_keys t"
    unfolding tree_keys_def by (metis list.set_map)
qed

lemma tree_inv_shape:
  "m_insertion_order t' = m_insertion_order t \<Longrightarrow> tree_keys t' = tree_keys t \<Longrightarrow>
   tree_inv t \<Longrightarrow> tree_inv t'"
  by (simp add: tree_inv_def)

lemma all_ok_map_at:
  "set ks \<subseteq> fst ` set m \<Longrightarrow> \<exists>r. all_ok (map (map_at m) ks) = Inr r \<and> map fst r = ks"
proof (induction ks)
  case Nil
  then show ?case by simp
next
  case (Cons k ks)
  then obtain r where r: "all_ok (map (map_at m) ks) = Inr r" "map fst r = ks" by auto
  from Cons.prems have "map_find k m \<noteq> None" by (simp add: map_find_None_iff)
  then obtain g where "map_at m k = Inr (k, g)" by (auto simp: map_at_def)
  with r show ?case by simp
qed

lemma children_of_ok:
  assumes "tree_inv t"
  shows "\<exists>cs. children_of p t = Inr cs
           \<and> map fst cs = filter (\<lambda>our_path. is_child_of our_path p) (m_insertion_order t)"
  unfolding children_of_def using assms
  by (intro all_ok_map_at) (auto simp: tree_inv_def tree_keys_def)

lemma descendants_of_ok:
  assumes "tree_inv t"
  shows "\<exists>ds. descendants_of p inc t = Inr ds
           \<and> map fst ds = filter (\<lambda>our_path. is_descendant_of our_path p inc) (m_insertion_order t)"
  unfolding descendants_of_def using assms
  by (intro all_ok_map_at) (auto simp: tree_inv_def tree_keys_def)

lemma fold_update_inv:
  "tree_inv t \<Longrightarrow> tree_inv (fold (\<lambda>(p, g). update p (f g)) ds t)"
  by (induction ds arbitrary: t) (auto simp: tree_inv_update)

lemma scale_ok:
  assumes "tree_inv t"
  shows "\<exists>t'. scale_parent_and_descendants_by p factor t = Inr t' \<and> tree_inv t'"
proof -
  from descendants_of_ok [OF assms] obtain ds where "descendants_of p True t = Inr ds" by blast
  then show ?thesis
    using fold_update_inv [OF assms] by (simp add: scale_parent_and_descendants_by_def)
qed

lemma update_existing_shape:
  assumes "p \<in> tree_keys t"
  shows "m_insertion_order (update p g t) = m_insertion_order t"
    and "tree_keys (update p g t) = tree_keys t"
  using assms by (auto simp: update_order update_keys)

lemma get_Some_key: "get p t = Some g \<Longrightarrow> p \<in> tree_keys t"
  using map_find_None_iff [of p "m_rendered t"] by (auto simp: get_def tree_keys_def)

lemma child_deeper_card:
  assumes "c \<in> set order" and "is_child_of c p"
  shows "card {q \<in> set order. path_size c < path_size q}
       < card {q \<in> set order. path_size p < path_size q}"
proof (rule psubset_card_mono)
  show "finite {q \<in> set order. path_size p < path_size q}" by simp
  from assms(2) have sz: "path_size c = path_size p + 1" by (simp add: is_child_of_def)
  with assms(1) have "c \<in> {q \<in> set order. path_size p < path_size q}" by simp
  moreover have "c \<notin> {q \<in> set order. path_size c < path_size q}" by simp
  moreover have "{q \<in> set order. path_size c < path_size q} \<subseteq> {q \<in> set order. path_size p < path_size q}"
    using sz by auto
  ultimately show "{q \<in> set order. path_size c < path_size q} \<subset> {q \<in> set order. path_size p < path_size q}"
    by blast
qed

lemma rotate_children_of_ok:
  assumes "tree_inv t"
    and "card {q \<in> set (m_insertion_order t). path_size p < path_size q} < fuel"
  shows "\<exists>t'. rotate_children_of fuel p rotation_pt rot t = Inr t'
            \<and> m_insertion_order t' = m_insertion_order t \<and> tree_keys t' = tree_keys t"
  using assms
proof (induction fuel arbitrary: p t)
  case 0
  then show ?case by simp
next
  case (Suc fuel)
  from children_of_ok [OF Suc.prems(1)] obtain cs where
    cs: "children_of p t = Inr cs"
        "map fst cs = filter (\<lambda>our_path. is_child_of our_path p) (m_insertion_order t)"
    by blast
  have loop: "\<exists>t2. fold_err (\<lambda>child_path. rotate_children_of fuel child_path rotation_pt rot) cl t1 = Inr t2
            \<and> m_insertion_order t2 = m_insertion_order t \<and> tree_keys t2 = tree_keys t"
    if "set cl \<subseteq> {c \<in> set (m_insertion_order t). is_child_of c p}"
      and "m_insertion_order t1 = m_insertion_order t" and "tree_keys t1 = tree_keys t"
    for cl t1
    using that
  proof (induction cl arbitrary: t1)
    case Nil
    then show ?case by simp
  next
    case (Cons c cl)
    from Cons.prems(1) have c: "c \<in> set (m_insertion_order t)" "is_child_of c p" by auto
    have inv1: "tree_inv t1"
      using tree_inv_shape [OF Cons.prems(2,3) Suc.prems(1)] .
    have "card {q \<in> set (m_insertion_order t). path_size c < path_size q} < fuel"
      using child_deeper_card [OF c] Suc.prems(2) by linarith
    then have "card {q \<in> set (m_insertion_order t1). path_size c < path_size q} < fuel"
      by (simp add: Cons.prems(2))
    from Suc.IH [OF inv1 this] obtain t1' where
      t1': "rotate_children_of fuel c rotation_pt rot t1 = Inr t1'"
           "m_insertion_order t1' = m_insertion_order t1" "tree_keys t1' = tree_keys t1"
      by blast
    from Cons.prems(1) have "set cl \<subseteq> {c \<in> set (m_insertion_order t). is_child_of c p}" by simp
    moreover have "m_insertion_order t1' = m_insertion_order t" "tree_keys t1' = tree_keys t"
      using t1'(2,3) Cons.prems(2,3) by simp_all
    ultimately obtain t2 where
      "fold_err (\<lambda>child_path. rotate_children_of fuel child_path rotation_pt rot) cl t1' = Inr t2"
      "m_insertion_order t2 = m_insertion_order t" "tree_keys t2 = tree_keys t"
      using Cons.IH [of t1'] by blast
    with t1'(1) show ?case by simp
  qed
  have "set (map fst cs) \<subseteq> {c \<in> set (m_insertion_order t). is_child_of c p}"
    unfolding cs(2) by auto
  from loop [OF this refl refl] obtain t2 where
    t2: "fold_err (\<lambda>child_path. rotate_children_of fuel child_path rotation_pt rot) (map fst cs) t = Inr t2"
        "m_insertion_order t2 = m_insertion_order t" "tree_keys t2 = tree_keys t"
    by blast
  show ?case
  proof (cases "get p t2")
    case None
    with cs(1) t2 show ?thesis by simp
  next
    case (Some g)
    from update_existing_shape [OF get_Some_key [OF Some]] cs(1) t2 Some show ?thesis by simp
  qed
qed

lemma rotate_in_place_ok:
  assumes "tree_inv t"
  shows "\<exists>t'. rotate_parent_and_descendants_in_place p rot t = Inr t' \<and> tree_inv t'"
proof -
  have "card {q \<in> set (m_insertion_order t). path_size p < path_size q} \<le> card (set (m_insertion_order t))"
    by (rule card_mono) auto
  also have "\<dots> \<le> length (m_insertion_order t)" by (rule card_length)
  finally have "card {q \<in> set (m_insertion_order t). path_size p < path_size q}
      < Suc (length (m_insertion_order t))" by simp
  from rotate_children_of_ok [OF assms this] obtain t' where
    t': "rotate_children_of (Suc (length (m_insertion_order t))) p
           (bounds_center (positioned_bounds_of p t)) rot t = Inr t'"
        "m_insertion_order t' = m_insertion_order t" "tree_keys t' = tree_keys t"
    by blast
  have "tree_inv t'" using tree_inv_shape [OF t'(2,3) assms] .
  then have "tree_inv (move_parent_and_descendants_by p off t')" for off
    unfolding move_parent_and_descendants_by_def
    by (rule tree_inv_shape [OF move_impl_shape, rotated -1])
  with t'(1) show ?thesis
    by (simp add: rotate_parent_and_descendants_in_place_def Let_def del: rotate_children_of.simps)
qed

lemma apply_render_op_ok:
  assumes "tree_inv t"
  shows "\<exists>t'. apply_render_op op t = Inr t' \<and> tree_inv t'"
proof (cases op)
  case (Update p g)
  with assms show ?thesis by (simp add: tree_inv_update)
next
  case (MoveBy p by_pos)
  with assms show ?thesis
    by (simp add: move_parent_and_descendants_by_def tree_inv_shape [OF move_impl_shape])
next
  case (MoveByExcluding p by_pos ex)
  with assms show ?thesis
    by (simp add: move_parent_and_descendants_by_excluding_def tree_inv_shape [OF move_impl_shape])
next
  case (MoveDescendantsBy p by_pos)
  with assms show ?thesis
    by (simp add: move_descendants_by_def tree_inv_shape [OF move_impl_shape])
next
  case (ScaleBy p factor)
  with scale_ok [OF assms] show ?thesis by simp
next
  case (RotateInPlace p rot)
  with rotate_in_place_ok [OF assms] show ?thesis by simp
next
  case (Invalidate p)
  then show ?thesis by (simp add: invalidate_parent_and_child_pos_def tree_inv_def tree_keys_def)
qed

lemma run_render_ops_ok:
  "tree_inv t \<Longrightarrow> \<exists>t'. run_render_ops ops t = Inr t' \<and> tree_inv t'"
proof (induction ops arbitrary: t)
  case Nil
  then show ?case by (simp add: run_render_ops_def)
next
  case (Cons op ops)
  from apply_render_op_ok [OF Cons.prems] obtain t1 where
    "apply_render_op op t = Inr t1" "tree_inv t1" by blast
  with Cons.IH [of t1] show ?case by (simp add: run_render_ops_def)
qed

lemma sorted_insert_or_assign:
  "sorted_wrt path_less (map fst m) \<Longrightarrow> sorted_wrt path_less (map fst (map_insert_or_assign k v m))"
proof (induction m)
  case Nil
  then show ?case by simp
next
  case (Cons a m)
  obtain k' v' where a: "a = (k', v')" by (cases a)
  from Cons.prems have tail: "sorted_wrt path_less (map fst m)"
    and head: "\<forall>x \<in> fst ` set m. path_less k' x"
    by (auto simp: a)
  show ?case
  proof (cases "path_less k k'")
    case True
    with head have "\<forall>x \<in> fst ` set m. path_less k x" by (blast intro: path_less_trans)
    with True Cons.prems show ?thesis by (auto simp: a)
  next
    case False
    show ?thesis
    proof (cases "path_less k' k")
      case True
      with head have "\<forall>x \<in> fst ` set (map_insert_or_assign k v m). path_less k' x"
        by (simp add: keys_insert_or_assign)
      with False True Cons.IH [OF tail] show ?thesis by (simp add: a image_iff) 
    next
      case same: False
      with False Cons.prems show ?thesis by (simp add: a)
    qed
  qed
qed

lemma keys_sorted_update: "keys_sorted t \<Longrightarrow> keys_sorted (update p g t)"
  by (simp add: keys_sorted_def update_def sorted_insert_or_assign)

lemma keys_sorted_fold_update:
  "keys_sorted t \<Longrightarrow> keys_sorted (fold (\<lambda>(p, g). update p (f g)) ds t)"
  by (induction ds arbitrary: t) (auto simp: keys_sorted_update)

lemma move_impl_keys:
  "map fst (m_rendered (move_parent_and_descendants_by_impl p by_pos ex xp t)) = map fst (m_rendered t)"
  by (auto simp: move_parent_and_descendants_by_impl_def Let_def keys_map_modify comp_def
      case_prod_unfold if_distrib [of fst] cong: if_cong)

lemma keys_sorted_move:
  "keys_sorted t \<Longrightarrow> keys_sorted (move_parent_and_descendants_by_impl p by_pos ex xp t)"
  by (simp add: keys_sorted_def move_impl_keys)

lemma fold_err_invariant:
  assumes "\<And>x s s'. f x s = Inr s' \<Longrightarrow> P s \<Longrightarrow> P s'"
  shows "fold_err f xs s = Inr s' \<Longrightarrow> P s \<Longrightarrow> P s'"
proof (induction xs arbitrary: s)
  case Nil
  then show ?case by simp
next
  case (Cons x xs)
  from Cons.prems(1) obtain s1 where "f x s = Inr s1" "fold_err f xs s1 = Inr s'"
    by (auto split: sum.splits)
  with Cons.IH [of s1] assms [of x s s1] Cons.prems(2) show ?case by blast
qed

lemma keys_sorted_rotate_children:
  "rotate_children_of fuel p rotation_pt rot t = Inr t' \<Longrightarrow> keys_sorted t \<Longrightarrow> keys_sorted t'"
proof (induction fuel arbitrary: p t t')
  case 0
  then show ?case by simp
next
  case (Suc fuel)
  from Suc.prems(1) obtain cs where cs: "children_of p t = Inr cs"
    by (cases "children_of p t") auto
  from Suc.prems(1) cs obtain t1 where
    loop: "fold_err (\<lambda>child_path. rotate_children_of fuel child_path rotation_pt rot) (map fst cs) t = Inr t1"
    by (cases "fold_err (\<lambda>child_path. rotate_children_of fuel child_path rotation_pt rot) (map fst cs) t") auto
  from Suc.prems(1) cs loop have
    fin: "t' = (case get p t1 of None \<Rightarrow> t1
                    | Some g \<Rightarrow> update p (geometry_rotate_around rotation_pt rot g) t1)"
    by (auto split: option.splits)
  have "keys_sorted t1"
    using loop Suc.prems(2)
    by (rule fold_err_invariant [where P = keys_sorted, rotated 1]) (rule Suc.IH)
  then show ?case
    unfolding fin by (auto simp: keys_sorted_update split: option.splits)
qed

lemma keys_sorted_apply:
  assumes "apply_render_op op t = Inr t'" and "keys_sorted t"
  shows "keys_sorted t'"
proof (cases op)
  case (Update p g)
  with assms show ?thesis by (auto simp: keys_sorted_update)
next
  case (MoveBy p by_pos)
  with assms show ?thesis by (auto simp: move_parent_and_descendants_by_def keys_sorted_move)
next
  case (MoveByExcluding p by_pos ex)
  with assms show ?thesis
    by (auto simp: move_parent_and_descendants_by_excluding_def keys_sorted_move)
next
  case (MoveDescendantsBy p by_pos)
  with assms show ?thesis by (auto simp: move_descendants_by_def keys_sorted_move)
next
  case (ScaleBy p factor)
  with assms show ?thesis
    by (auto simp: scale_parent_and_descendants_by_def keys_sorted_fold_update split: sum.splits)
next
  case (RotateInPlace p rot)
  with assms obtain t1 off where
    "rotate_children_of (Suc (length (m_insertion_order t))) p
       (bounds_center (positioned_bounds_of p t)) rot t = Inr t1"
    "t' = move_parent_and_descendants_by p off t1"
    by (auto simp: rotate_parent_and_descendants_in_place_def Let_def
        simp del: rotate_children_of.simps split: sum.splits)
  with keys_sorted_rotate_children [OF this(1) assms(2)] show ?thesis
    by (simp add: move_parent_and_descendants_by_def keys_sorted_move)
next
  case (Invalidate p)
  with assms show ?thesis by (auto simp: invalidate_parent_and_child_pos_def keys_sorted_def)
qed

lemma keys_sorted_run:
  "run_render_ops ops t = Inr t' \<Longrightarrow> keys_sorted t \<Longrightarrow> keys_sorted t'"
  unfolding run_render_ops_def
  by (rule fold_err_invariant [where P = keys_sorted]) (rule keys_sorted_apply)

lemma sorted_keys_distinct: "sorted_wrt path_less ks \<Longrightarrow> distinct ks"
  by (induction ks) (auto simp: path_less_irrefl)

text \<open>
  Claim C9.  Every sequence of update, move, scale, rotate and invalidate operations on
  the empty render tree runs to its end without an exception, and in the tree it leaves
  the insertion-order list holds exactly the paths that are keys of the rendered map,
  each of them once; the map itself stays ordered by its keys.
\<close>

theorem insertion_order_lists_rendered_paths:
  "\<exists>t. run_render_ops ops RenderTree = Inr t
      \<and> set (m_insertion_order t) = fst ` set (m_rendered t)
      \<and> distinct (m_insertion_order t)
      \<and> sorted_wrt path_less (map fst (m_rendered t))"
proof -
  have "tree_inv RenderTree" by (simp add: tree_inv_def tree_keys_def RenderTree_def)
  from run_render_ops_ok [OF this] obtain t where
    run: "run_render_ops ops RenderTree = Inr t" and inv: "tree_inv t" by blast
  have "keys_sorted RenderTree" by (simp add: keys_sorted_def RenderTree_def)
  with run have "keys_sorted t" by (rule keys_sorted_run)
  with run inv show ?thesis by (simp add: tree_inv_def tree_keys_def keys_sorted_def)
qed


text \<open>
  Two paths are inserted, the first one is updated again, then the subtree is moved,
  scaled and rotated: the insertion order and the keys of the map are the two paths.
\<close>

theorem insertion_order_lists_rendered_paths_witness:
  "\<exists>t. run_render_ops
         [Update (Path [''a'']) (geometry_empty Point0 Bounds0),
          Update (Path [''a'', ''b'']) (Geometry [Point0] [] Point0 default_color (Fin 0) PInf []),
          Update (Path [''a'']) (geometry_empty Point0 (Bounds Point0 (Point (Fin 1) (Fin 1) (Fin 1)))),
          MoveBy (Path [''a'']) (Point (Fin 1) (Fin 0) (Fin 0)),
          ScaleBy (Path [''a'']) (Fin 2),
          RotateInPlace (Path [''a'']) (Rotation (Fin 0) (Fin 0) (Fin 1) (Fin 0) (Fin 1) (Fin 0) (Fin (- 1)) (Fin 0) (Fin 0))]
         RenderTree = Inr t
      \<and> m_insertion_order t = [Path [''a''], Path [''a'', ''b'']]
      \<and> map fst (m_rendered t) = [Path [''a''], Path [''a'', ''b'']]"
  using insertion_order_lists_rendered_paths
    [where ops = "[Update (Path [''a'']) (geometry_empty Point0 Bounds0),
          Update (Path [''a'', ''b'']) (Geometry [Point0] [] Point0 default_color (Fin 0) PInf []),
          Update (Path [''a'']) (geometry_empty Point0 (Bounds Point0 (Point (Fin 1) (Fin 1) (Fin 1)))),
          MoveBy (Path [''a'']) (Point (Fin 1) (Fin 0) (Fin 0)),
          ScaleBy (Path [''a'']) (Fin 2),
          RotateInPlace (Path [''a'']) (Rotation (Fin 0) (Fin 0) (Fin 1) (Fin 0) (Fin 1) (Fin 0) (Fin (- 1)) (Fin 0) (Fin 0))]"]
  by (simp add: run_render_ops_def RenderTree_def update_def same_key_iff
      move_parent_and_descendants_by_def move_parent_and_descendants_by_impl_def map_modify_def
      scale_parent_and_descendants_by_def descendants_of_def children_of_def map_at_def
      rotate_parent_and_descendants_in_place_def get_def is_descendant_of_def is_child_of_def
      path_size_def path_less_iff Let_def)


section \<open>Properties of the topological sort\<close>

lemma same_gray_refl: "same_gray c c" by (simp add: same_gray_def)
lemma black_mono_refl: "black_mono c c" by (simp add: black_mono_def)
lemma same_gray_trans: "same_gray a b \<Longrightarrow> same_gray b c \<Longrightarrow> same_gray a c"
  by (simp add: same_gray_def)
lemma black_mono_trans: "same_gray a b \<Longrightarrow> black_mono a b \<Longrightarrow> black_mono b c \<Longrightarrow> black_mono a c"
  by (simp add: same_gray_def black_mono_def)

lemma dfs_inv_gray:
  assumes "dfs_inv g (colors, order)" and "u < length g" and "colors ! u = White"
  shows "dfs_inv g (colors[u := Gray], order)"
  using assms by (auto simp: dfs_inv_def nth_list_update)

lemma dfs_inv_finish:
  assumes inv: "dfs_inv g (c1, o1)" and u: "u < length g" and gray: "c1 ! u = Gray"
    and succs: "\<forall>v \<in> set (g ! u). v < length g \<and> c1 ! v = Black"
  shows "dfs_inv g (c1[u := Black], u # o1)"
proof -
  from inv gray u have "u \<notin> set o1" by (auto simp: dfs_inv_def)
  moreover from inv succs have "set (g ! u) \<subseteq> set o1" by (auto simp: dfs_inv_def)
  ultimately show ?thesis
    using inv u by (auto simp: dfs_inv_def nth_list_update)
qed

lemma dfs_sound:
  "graph_wf g \<Longrightarrow> dfs_inv g st \<Longrightarrow> fst st ! u = White \<Longrightarrow> dfs_visit fuel g u st = Inr st' \<Longrightarrow>
     dfs_inv g st' \<and> fst st' ! u = Black \<and> same_gray (fst st) (fst st') \<and> black_mono (fst st) (fst st')"
  "graph_wf g \<Longrightarrow> dfs_inv g st \<Longrightarrow> set vs \<subseteq> {..< length g} \<Longrightarrow> dfs_out_edges fuel g vs st = Inr st' \<Longrightarrow>
     dfs_inv g st' \<and> (\<forall>v \<in> set vs. fst st' ! v = Black) \<and> same_gray (fst st) (fst st')
     \<and> black_mono (fst st) (fst st')"
proof (induction fuel g u st and fuel g vs st arbitrary: st' and st' rule: dfs_visit_dfs_out_edges.induct)
  case (1 g u st)
  then show ?case by simp
next
  case (2 fuel g u colors order)
  from "2.prems"(4) have range: "u < length g" "u < length colors"
    by (auto split: if_splits)
  with "2.prems"(4) obtain c1 o1 where
    edges: "dfs_out_edges fuel g (g ! u) (colors[u := Gray], order) = Inr (c1, o1)"
    and st': "st' = (c1[u := Black], u # o1)"
    by (auto split: sum.splits)
  from "2.prems"(2,3) range have inv0: "dfs_inv g (colors[u := Gray], order)"
    by (intro dfs_inv_gray) auto
  from "2.prems"(1) range have sub: "set (g ! u) \<subseteq> {..< length g}"
    by (auto simp: graph_wf_def)
  from "2.IH" [OF _ "2.prems"(1) inv0 sub edges] range
  have r: "dfs_inv g (c1, o1)" "\<forall>v \<in> set (g ! u). c1 ! v = Black"
    "same_gray (colors[u := Gray]) c1" "black_mono (colors[u := Gray]) c1"
    by auto
  from r(3) range have gray: "c1 ! u = Gray" and len: "length c1 = length colors"
    by (auto simp: same_gray_def)
  have "dfs_inv g (c1[u := Black], u # o1)"
    using r(1) range(1) gray r(2) sub by (intro dfs_inv_finish) auto
  moreover have "same_gray colors (c1[u := Black])"
    using r(3) "2.prems"(3) range by (auto simp: same_gray_def nth_list_update)
  moreover have "black_mono colors (c1[u := Black])"
    using r(4) "2.prems"(3) range len by (auto simp: black_mono_def nth_list_update)
  ultimately show ?case
    using range len by (simp add: st')
next
  case (3 fuel g st)
  then show ?case by (simp add: same_gray_refl black_mono_refl)
next
  case (4 fuel g v vs colors order)
  from "4.prems"(4) have range: "v < length colors" by (auto split: if_splits)
  from "4.prems"(3) have vs: "set vs \<subseteq> {..< length g}" and v: "v < length g" by auto
  show ?case
  proof (cases "colors ! v")
    case White
    with "4.prems"(4) range obtain st1 where
      visit: "dfs_visit fuel g v (colors, order) = Inr st1"
      and rest: "dfs_out_edges fuel g vs st1 = Inr st'"
      by (auto split: sum.splits)
    from "4.IH"(1) [OF _ White "4.prems"(1,2) _ visit] range White
    have r1: "dfs_inv g st1" "fst st1 ! v = Black" "same_gray colors (fst st1)"
      "black_mono colors (fst st1)" by auto
    from "4.IH"(2) [OF _ White visit "4.prems"(1) r1(1) vs rest] range
    have r2: "dfs_inv g st'" "\<forall>w \<in> set vs. fst st' ! w = Black" "same_gray (fst st1) (fst st')"
      "black_mono (fst st1) (fst st')" by auto
    from r1(2,3) r2(4) range have "fst st' ! v = Black"
      by (auto simp: black_mono_def same_gray_def)
    with r1 r2 show ?thesis
      by (auto intro: same_gray_trans black_mono_trans)
  next
    case Gray
    with "4.prems"(4) range show ?thesis by simp
  next
    case Black
    with "4.prems"(4) range have rest: "dfs_out_edges fuel g vs (colors, order) = Inr st'" by simp
    from "4.IH"(3) [OF _ Black "4.prems"(1,2) vs rest] range
    have r: "dfs_inv g st'" "\<forall>w \<in> set vs. fst st' ! w = Black" "same_gray colors (fst st')"
      "black_mono colors (fst st')" by auto
    from r(4) Black range have "fst st' ! v = Black" by (auto simp: black_mono_def)
    with r show ?thesis by auto
  qed
qed

lemma white_count_gray:
  assumes "u < length c" and "c ! u = White"
  shows "Suc (white_count (c[u := Gray])) = white_count c"
proof -
  have "{v. v < length (c[u := Gray]) \<and> c[u := Gray] ! v = White}
        = {v. v < length c \<and> c ! v = White} - {u}"
    using assms by (auto simp: nth_list_update)
  moreover have "u \<in> {v. v < length c \<and> c ! v = White}" using assms by simp
  moreover have "finite {v. v < length c \<and> c ! v = White}" by simp
  ultimately show ?thesis
    unfolding white_count_def by (metis card_Suc_Diff1)
qed

lemma white_count_mono:
  assumes "same_gray c c'" and "black_mono c c'"
  shows "white_count c' \<le> white_count c"
  unfolding white_count_def
proof (rule card_mono)
  show "finite {v. v < length c \<and> c ! v = White}" by simp
  show "{v. v < length c' \<and> c' ! v = White} \<subseteq> {v. v < length c \<and> c ! v = White}"
  proof clarify
    fix v assume v: "v < length c'" "c' ! v = White"
    with assms have "v < length c" "c ! v \<noteq> Gray" "c ! v \<noteq> Black"
      by (auto simp: same_gray_def black_mono_def)
    then show "v < length c \<and> c ! v = White" by (cases "c ! v") auto
  qed
qed

lemma dfs_no_stuck:
  "graph_wf g \<Longrightarrow> dfs_inv g st \<Longrightarrow> u < length g \<Longrightarrow> fst st ! u = White \<Longrightarrow>
     white_count (fst st) \<le> fuel \<Longrightarrow> dfs_done (dfs_visit fuel g u st)"
  "graph_wf g \<Longrightarrow> dfs_inv g st \<Longrightarrow> set vs \<subseteq> {..< length g} \<Longrightarrow>
     white_count (fst st) \<le> fuel \<Longrightarrow> dfs_done (dfs_out_edges fuel g vs st)"
proof (induction fuel g u st and fuel g vs st rule: dfs_visit_dfs_out_edges.induct)
  case (1 g u st)
  from "1.prems"(2,3,4) have "u \<in> {v. v < length (fst st) \<and> fst st ! v = White}"
    by (simp add: dfs_inv_def)
  then have "white_count (fst st) \<noteq> 0"
    unfolding white_count_def by (metis (no_types, lifting) card_0_eq empty_iff finite_nat_set_iff_bounded mem_Collect_eq)
  with "1.prems"(5) show ?case by simp
next
  case (2 fuel g u colors order)
  from "2.prems"(2,3) have range: "u < length g" "u < length colors"
    by (auto simp: dfs_inv_def)
  from "2.prems"(2,4) range have inv0: "dfs_inv g (colors[u := Gray], order)"
    by (intro dfs_inv_gray) auto
  from "2.prems"(1) range have sub: "set (g ! u) \<subseteq> {..< length g}"
    by (auto simp: graph_wf_def)
  from white_count_gray [OF range(2)] "2.prems"(4,5)
  have "white_count (fst (colors[u := Gray], order)) \<le> fuel" by simp
  from "2.IH" [OF _ "2.prems"(1) inv0 sub this] range
  have "dfs_done (dfs_out_edges fuel g (g ! u) (colors[u := Gray], order))" by simp
  with range show ?case
    by (auto simp: dfs_done_def)
next
  case (3 fuel g st)
  then show ?case by (simp add: dfs_done_def)
next
  case (4 fuel g v vs colors order)
  from "4.prems"(2,3) have range: "v < length colors" and v: "v < length g"
    and vs: "set vs \<subseteq> {..< length g}"
    by (auto simp: dfs_inv_def)
  show ?case
  proof (cases "colors ! v")
    case White
    from "4.IH"(1) [OF _ White "4.prems"(1,2) v _ "4.prems"(4)] range White
    have d1: "dfs_done (dfs_visit fuel g v (colors, order))" by simp
    show ?thesis
    proof (cases "dfs_visit fuel g v (colors, order)")
      case (Inl e)
      with d1 have "e = NotADag" by (simp add: dfs_done_def)
      with Inl White range show ?thesis by (simp add: dfs_done_def)
    next
      case (Inr st1)
      from dfs_sound(1) [OF "4.prems"(1,2) _ Inr] White
      have r1: "dfs_inv g st1" "same_gray colors (fst st1)" "black_mono colors (fst st1)" by auto
      from white_count_mono [OF r1(2,3)] "4.prems"(4) have "white_count (fst st1) \<le> fuel" by simp
      from "4.IH"(2) [OF _ White Inr "4.prems"(1) r1(1) vs this] range
      have "dfs_done (dfs_out_edges fuel g vs st1)" by simp
      with Inr White range show ?thesis by simp
    qed
  next
    case Gray
    with range show ?thesis by (simp add: dfs_done_def)
  next
    case Black
    from "4.IH"(3) [OF _ Black "4.prems"(1,2) vs "4.prems"(4)] range Black
    show ?thesis by simp
  qed
qed

lemma dfs_acyclic:
  "graph_wf g \<Longrightarrow> dfs_inv g st \<Longrightarrow> acyclic (graph_edges g) \<Longrightarrow> u < length g \<Longrightarrow>
     fst st ! u = White \<Longrightarrow>
     (\<forall>x < length g. fst st ! x = Gray \<longrightarrow> (x, u) \<in> (graph_edges g)\<^sup>+) \<Longrightarrow>
     dfs_visit fuel g u st \<noteq> Inl NotADag"
  "graph_wf g \<Longrightarrow> dfs_inv g st \<Longrightarrow> acyclic (graph_edges g) \<Longrightarrow> p < length g \<Longrightarrow>
     set vs \<subseteq> set (g ! p) \<Longrightarrow>
     (\<forall>x < length g. fst st ! x = Gray \<longrightarrow> (x, p) \<in> (graph_edges g)\<^sup>*) \<Longrightarrow>
     dfs_out_edges fuel g vs st \<noteq> Inl NotADag"
proof (induction fuel g u st and fuel g vs st arbitrary: and p rule: dfs_visit_dfs_out_edges.induct)
  case (1 g u st)
  then show ?case by simp
next
  case (2 fuel g u colors order)
  from "2.prems"(2,4) have range: "u < length g" "u < length colors"
    by (auto simp: dfs_inv_def)
  from "2.prems"(2,5) range have inv0: "dfs_inv g (colors[u := Gray], order)"
    by (intro dfs_inv_gray) auto
  have gray0: "\<forall>x < length g. fst (colors[u := Gray], order) ! x = Gray
      \<longrightarrow> (x, u) \<in> (graph_edges g)\<^sup>*"
    using "2.prems"(6) range by (auto simp: nth_list_update)
  from "2.IH" [OF _ "2.prems"(1) inv0 "2.prems"(3) range(1) subset_refl gray0] range
  have "dfs_out_edges fuel g (g ! u) (colors[u := Gray], order) \<noteq> Inl NotADag" by simp
  with range show ?case by (auto split: sum.splits)
next
  case (3 fuel g st)
  then show ?case by simp
next
  case (4 fuel g v vs colors order)
  from "4.prems"(1,4,5) have v: "v < length g" and edge: "(p, v) \<in> graph_edges g"
    by (auto simp: graph_wf_def graph_edges_def)
  from "4.prems"(2) v have range: "v < length colors" by (simp add: dfs_inv_def)
  from "4.prems"(5) have vs: "set vs \<subseteq> set (g ! p)" by simp
  show ?case
  proof (cases "colors ! v")
    case White
    have gray_v: "\<forall>x < length g. fst (colors, order) ! x = Gray \<longrightarrow> (x, v) \<in> (graph_edges g)\<^sup>+"
      using "4.prems"(6) edge by (auto intro: rtrancl_into_trancl1)
    from "4.IH"(1) [OF _ White "4.prems"(1,2,3) v _ gray_v] range White
    have n1: "dfs_visit fuel g v (colors, order) \<noteq> Inl NotADag" by simp
    show ?thesis
    proof (cases "dfs_visit fuel g v (colors, order)")
      case (Inl e)
      with n1 White range show ?thesis by simp
    next
      case (Inr st1)
      from dfs_sound(1) [OF "4.prems"(1,2) _ Inr] White
      have r1: "dfs_inv g st1" "same_gray colors (fst st1)" by auto
      have gray1: "\<forall>x < length g. fst st1 ! x = Gray \<longrightarrow> (x, p) \<in> (graph_edges g)\<^sup>*"
        using "4.prems"(2,6) r1(2) by (auto simp: same_gray_def dfs_inv_def)
      from "4.IH"(2) [OF _ White Inr "4.prems"(1) r1(1) "4.prems"(3,4) vs gray1] range
      have "dfs_out_edges fuel g vs st1 \<noteq> Inl NotADag" by simp
      with Inr White range show ?thesis by simp
    qed
  next
    case Gray
    with "4.prems"(6) v have "(v, p) \<in> (graph_edges g)\<^sup>*" by simp
    with edge have "(v, v) \<in> (graph_edges g)\<^sup>+" by (auto intro: rtrancl_into_trancl1)
    with "4.prems"(3) show ?thesis by (simp add: acyclic_def)
  next
    case Black
    from "4.IH"(3) [OF _ Black "4.prems"(1,2,3,4) vs "4.prems"(6)] range Black
    show ?thesis by simp
  qed
qed

lemma dfs_roots_sound:
  "graph_wf g \<Longrightarrow> dfs_inv g st \<Longrightarrow> set us \<subseteq> {..< length g} \<Longrightarrow>
   dfs_roots fuel g us st = Inr st' \<Longrightarrow>
     dfs_inv g st' \<and> (\<forall>u \<in> set us. fst st' ! u \<noteq> White) \<and> same_gray (fst st) (fst st')
     \<and> black_mono (fst st) (fst st')"
proof (induction fuel g us st arbitrary: st' rule: dfs_roots.induct)
  case (1 fuel g st)
  then show ?case by (simp add: same_gray_refl black_mono_refl)
next
  case (2 fuel g u us colors order)
  from "2.prems"(2,3) have range: "u < length colors" and u: "u < length g"
    and us: "set us \<subseteq> {..< length g}"
    by (auto simp: dfs_inv_def)
  have keep: "fst st' ! u \<noteq> White"
    if "fst st1 ! u \<noteq> White" "same_gray (fst st1) (fst st')" "black_mono (fst st1) (fst st')"
      "length (fst st1) = length colors" for st1
    using that range by (cases "fst st1 ! u") (auto simp: same_gray_def black_mono_def)
  show ?case
  proof (cases "colors ! u = White")
    case True
    with "2.prems"(4) range obtain st1 where
      visit: "dfs_visit fuel g u (colors, order) = Inr st1"
      and rest: "dfs_roots fuel g us st1 = Inr st'"
      by (auto split: sum.splits)
    from dfs_sound(1) [OF "2.prems"(1,2) _ visit] True
    have r1: "dfs_inv g st1" "fst st1 ! u = Black" "same_gray colors (fst st1)"
      "black_mono colors (fst st1)" by auto
    from "2.IH"(1) [OF _ True visit "2.prems"(1) r1(1) us rest] range
    have r2: "dfs_inv g st'" "\<forall>w \<in> set us. fst st' ! w \<noteq> White" "same_gray (fst st1) (fst st')"
      "black_mono (fst st1) (fst st')" by auto
    from keep [of st1] r1(2,3) r2(3,4) have "fst st' ! u \<noteq> White" by (simp add: same_gray_def)
    with r1 r2 show ?thesis by (auto intro: same_gray_trans black_mono_trans)
  next
    case False
    with "2.prems"(4) range have rest: "dfs_roots fuel g us (colors, order) = Inr st'" by simp
    from "2.IH"(2) [OF _ False "2.prems"(1,2) us rest] range
    have r: "dfs_inv g st'" "\<forall>w \<in> set us. fst st' ! w \<noteq> White" "same_gray colors (fst st')"
      "black_mono colors (fst st')" by auto
    from keep [of "(colors, order)"] False r(3,4) have "fst st' ! u \<noteq> White" by simp
    with r show ?thesis by auto
  qed
qed

lemma dfs_roots_no_stuck:
  "graph_wf g \<Longrightarrow> dfs_inv g st \<Longrightarrow> set us \<subseteq> {..< length g} \<Longrightarrow>
   white_count (fst st) \<le> fuel \<Longrightarrow> dfs_done (dfs_roots fuel g us st)"
proof (induction fuel g us st rule: dfs_roots.induct)
  case (1 fuel g st)
  then show ?case by (simp add: dfs_done_def)
next
  case (2 fuel g u us colors order)
  from "2.prems"(2,3) have range: "u < length colors" and u: "u < length g"
    and us: "set us \<subseteq> {..< length g}"
    by (auto simp: dfs_inv_def)
  show ?case
  proof (cases "colors ! u = White")
    case True
    from dfs_no_stuck(1) [OF "2.prems"(1,2) u _ "2.prems"(4)] True
    have d1: "dfs_done (dfs_visit fuel g u (colors, order))" by simp
    show ?thesis
    proof (cases "dfs_visit fuel g u (colors, order)")
      case (Inl e)
      with d1 have "e = NotADag" by (simp add: dfs_done_def)
      with Inl True range show ?thesis by (simp add: dfs_done_def)
    next
      case (Inr st1)
      from dfs_sound(1) [OF "2.prems"(1,2) _ Inr] True
      have r1: "dfs_inv g st1" "same_gray colors (fst st1)" "black_mono colors (fst st1)" by auto
      from white_count_mono [OF r1(2,3)] "2.prems"(4) have "white_count (fst st1) \<le> fuel" by simp
      from "2.IH"(1) [OF _ True Inr "2.prems"(1) r1(1) us this] range
      have "dfs_done (dfs_roots fuel g us st1)" by simp
      with Inr True range show ?thesis by simp
    qed
  next
    case False
    from "2.IH"(2) [OF _ False "2.prems"(1,2) us "2.prems"(4)] range False
    show ?thesis by simp
  qed
qed

lemma dfs_roots_acyclic:
  "graph_wf g \<Longrightarrow> dfs_inv g st \<Longrightarrow> acyclic (graph_edges g) \<Longrightarrow> set us \<subseteq> {..< length g} \<Longrightarrow>
   (\<forall>x < length g. fst st ! x \<noteq> Gray) \<Longrightarrow> dfs_roots fuel g us st \<noteq> Inl NotADag"
proof (induction fuel g us st rule: dfs_roots.induct)
  case (1 fuel g st)
  then show ?case by simp
next
  case (2 fuel g u us colors order)
  from "2.prems"(2,4) have range: "u < length colors" and u: "u < length g"
    and us: "set us \<subseteq> {..< length g}"
    by (auto simp: dfs_inv_def)
  show ?case
  proof (cases "colors ! u = White")
    case True
    from dfs_acyclic(1) [OF "2.prems"(1,2,3) u] True "2.prems"(5)
    have n1: "dfs_visit fuel g u (colors, order) \<noteq> Inl NotADag" by simp
    show ?thesis
    proof (cases "dfs_visit fuel g u (colors, order)")
      case (Inl e)
      with n1 True range show ?thesis by simp
    next
      case (Inr st1)
      from dfs_sound(1) [OF "2.prems"(1,2) _ Inr] True
      have r1: "dfs_inv g st1" "same_gray colors (fst st1)" by auto
      have gray1: "\<forall>x < length g. fst st1 ! x \<noteq> Gray"
        using "2.prems"(2,5) r1(2) by (auto simp: same_gray_def dfs_inv_def)
      from "2.IH"(1) [OF _ True Inr "2.prems"(1) r1(1) "2.prems"(3) us gray1] range
      have "dfs_roots fuel g us st1 \<noteq> Inl NotADag" by simp
      with Inr True range show ?thesis by simp
    qed
  next
    case False
    from "2.IH"(2) [OF _ False "2.prems"(1,2,3) us "2.prems"(5)] range False
    show ?thesis by simp
  qed
qed

lemma dfs_inv_init: "dfs_inv g (replicate (length g) White, [])"
  by (simp add: dfs_inv_def)

lemma white_count_init: "white_count (replicate n White) \<le> n"
proof -
  have "{v. v < length (replicate n White) \<and> replicate n White ! v = White} \<subseteq> {..< n}" by auto
  then have "card {v. v < length (replicate n White) \<and> replicate n White ! v = White} \<le> card {..< n}"
    by (intro card_mono) auto
  then show ?thesis by (simp add: white_count_def)
qed

lemma upt_sub: "set [0 ..< n] \<subseteq> {..< n}"
  by auto

lemma topological_sort_sound:
  assumes "graph_wf g" and "topological_sort g = Inr order"
  shows "topo_ordered g order \<and> distinct order \<and> set order = {..< length g}"
proof -
  from assms(2) obtain colors where
    roots: "dfs_roots (length g) g [0 ..< length g] (replicate (length g) White, []) = Inr (colors, order)"
    by (auto simp: topological_sort_def split: sum.splits)
  from dfs_roots_sound [OF assms(1) dfs_inv_init upt_sub roots]
  have r: "dfs_inv g (colors, order)" "\<forall>u < length g. colors ! u \<noteq> White"
    "same_gray (replicate (length g) White) colors"
    by auto
  have "colors ! u = Black" if "u < length g" for u
  proof -
    from r(3) that have "colors ! u \<noteq> Gray" by (simp add: same_gray_def)
    with r(2) that show ?thesis by (cases "colors ! u") auto
  qed
  with r(1) show ?thesis by (auto simp: dfs_inv_def)
qed

lemma topological_sort_done:
  assumes "graph_wf g"
  shows "(\<exists>order. topological_sort g = Inr order) \<or> topological_sort g = Inl NotADag"
proof -
  from dfs_roots_no_stuck [OF assms dfs_inv_init upt_sub, of "length g"] white_count_init
  have "dfs_done (dfs_roots (length g) g [0 ..< length g] (replicate (length g) White, []))"
    by simp
  then show ?thesis
    by (auto simp: dfs_done_def topological_sort_def split: sum.splits)
qed

lemma topological_sort_acyclic:
  assumes "graph_wf g" and "acyclic (graph_edges g)"
  shows "topological_sort g \<noteq> Inl NotADag"
proof -
  from dfs_roots_acyclic [OF assms(1) dfs_inv_init assms(2) upt_sub, of "length g"]
  have "dfs_roots (length g) g [0 ..< length g] (replicate (length g) White, []) \<noteq> Inl NotADag"
    by simp
  then show ?thesis
    by (auto simp: topological_sort_def split: sum.splits)
qed

lemma topo_targets: "topo_ordered g us \<Longrightarrow> u \<in> set us \<Longrightarrow> set (g ! u) \<subseteq> set us"
  by (induction us) auto

lemma topo_split:
  "topo_ordered g order \<Longrightarrow> distinct order \<Longrightarrow> u \<in> set order \<Longrightarrow> v \<in> set (g ! u) \<Longrightarrow>
   \<exists>xs ys zs. order = xs @ u # ys @ v # zs"
proof (induction order)
  case Nil
  then show ?case by simp
next
  case (Cons a as)
  show ?case
  proof (cases "a = u")
    case True
    with Cons.prems have "v \<in> set as" by auto
    then obtain ys zs where "as = ys @ v # zs" by (auto simp: in_set_conv_decomp)
    with True have "a # as = [] @ u # ys @ v # zs" by simp
    then show ?thesis by blast
  next
    case False
    with Cons.prems have "u \<in> set as" "topo_ordered g as" "distinct as" by auto
    from Cons.IH [OF this(2,3,1) Cons.prems(4)] obtain xs ys zs where "as = xs @ u # ys @ v # zs"
      by blast
    then have "a # as = (a # xs) @ u # ys @ v # zs" by simp
    then show ?thesis by blast
  qed
qed

lemma split_acyclic:
  assumes "distinct order"
    and "\<And>u v. (u, v) \<in> E \<Longrightarrow> \<exists>xs ys zs. order = xs @ u # ys @ v # zs"
  shows "acyclic E"
proof (rule acyclicI_order [where f = "\<lambda>v. length (dropWhile (\<lambda>x. x \<noteq> v) order)"])
  fix u v assume "(u, v) \<in> E"
  from assms(2) [OF this] obtain xs ys zs where o: "order = xs @ u # ys @ v # zs" by blast
  with assms(1) have "u \<notin> set xs" "v \<notin> set xs" "v \<noteq> u" "v \<notin> set ys" by auto
  then have "dropWhile (\<lambda>x. x \<noteq> u) order = u # ys @ v # zs"
    and "dropWhile (\<lambda>x. x \<noteq> v) order = v # zs"
    unfolding o by (simp_all add: dropWhile_append)
  then show "length (dropWhile (\<lambda>x. x \<noteq> v) order) < length (dropWhile (\<lambda>x. x \<noteq> u) order)"
    by simp
qed

lemma topological_sort_Inr_acyclic:
  assumes "graph_wf g" and "topological_sort g = Inr order"
  shows "acyclic (graph_edges g)"
proof -
  from topological_sort_sound [OF assms]
  have t: "topo_ordered g order" "distinct order" "set order = {..< length g}" by auto
  show ?thesis
  proof (rule split_acyclic [OF t(2)])
    fix u v assume "(u, v) \<in> graph_edges g"
    then have "u \<in> set order" "v \<in> set (g ! u)" using t(3) by (auto simp: graph_edges_def)
    with topo_split [OF t(1,2)] show "\<exists>xs ys zs. order = xs @ u # ys @ v # zs" by blast
  qed
qed

lemma find_index_of_None: "(find_index_of n ns = None) = (n \<notin> set ns)"
  by (induction ns) auto

lemma find_index_of_Some: "find_index_of n ns = Some k \<Longrightarrow> k < length ns \<and> ns ! k = n"
  by (induction ns arbitrary: k) (auto split: if_splits)

lemma graph_edges_new_vertex: "graph_edges (g @ [[]]) = graph_edges g"
  by (auto simp: graph_edges_def nth_append less_Suc_eq)

lemma graph_wf_new_vertex: "graph_wf g \<Longrightarrow> graph_wf (g @ [[]])"
  by (auto simp: graph_wf_def nth_append less_Suc_eq)

lemma name_edges_new_name:
  assumes "graph_wf g" and "length g = length names"
  shows "name_edges (names @ [n]) (g @ [[]]) = name_edges names g"
proof -
  have "(names @ [n]) ! u = names ! u \<and> (names @ [n]) ! v = names ! v"
    if "(u, v) \<in> graph_edges g" for u v
    using that assms by (auto simp: graph_edges_def graph_wf_def nth_append)
  then show ?thesis
    unfolding name_edges_def graph_edges_new_vertex by (auto simp: image_iff) force+
qed

lemma index_or_insert_props:
  assumes "distinct names" and "length g = length names" and "graph_wf g"
    and "index_or_insert n (names, g) = (k, names', g')"
  shows "distinct names' \<and> length g' = length names' \<and> graph_wf g' \<and> k < length names'
       \<and> names' ! k = n \<and> name_edges names' g' = name_edges names g
       \<and> set names' = insert n (set names)
       \<and> (\<forall>u < length names. names' ! u = names ! u) \<and> length names \<le> length names'"
proof (cases "find_index_of n names")
  case None
  with assms(4) have eq: "k = length names" "names' = names @ [n]" "g' = g @ [[]]"
    by (simp_all add: index_or_insert_def)
  from None have "n \<notin> set names" by (simp add: find_index_of_None)
  with assms(1,2,3) show ?thesis
    unfolding eq by (simp add: graph_wf_new_vertex name_edges_new_name nth_append)
next
  case (Some j)
  with assms(4) have eq: "k = j" "names' = names" "g' = g"
    by (simp_all add: index_or_insert_def)
  from find_index_of_Some [OF Some] assms(1,2,3) show ?thesis
    unfolding eq by auto
qed

lemma add_edge_props:
  assumes "graph_wf g" and "u < length g" and "v < length g"
  shows "graph_edges (add_edge u v g) = insert (u, v) (graph_edges g)"
    and "graph_wf (add_edge u v g)" and "length (add_edge u v g) = length g"
  using assms by (auto simp: graph_edges_def graph_wf_def add_edge_def nth_list_update split: if_splits)

lemma resolved_dependencies_snoc:
  "resolved_dependencies (processed @ [(name, maybe_dep)]) als =
     (case maybe_dep of
        None \<Rightarrow> resolved_dependencies processed als
      | Some dep \<Rightarrow> insert (resolve_alias dep als, name) (resolved_dependencies processed als))"
  by (auto simp: resolved_dependencies_def List.map_filter_def split: option.splits)

lemma add_dependency_inv:
  assumes "build_inv processed als st"
  shows "build_inv (processed @ [entry]) als (add_dependency als entry st)"
proof -
  obtain names g where st: "st = (names, g)" by (cases st)
  obtain name maybe_dep where entry: "entry = (name, maybe_dep)" by (cases entry)
  from assms have inv: "distinct names" "length g = length names" "graph_wf g"
    "name_edges names g = resolved_dependencies processed als" "fst ` set processed \<subseteq> set names"
    by (simp_all add: build_inv_def st)
  obtain k names1 g1 where ins1: "index_or_insert name (names, g) = (k, names1, g1)"
    by (cases "index_or_insert name (names, g)") auto
  note p1 = index_or_insert_props [OF inv(1,2,3) ins1]
  show ?thesis
  proof (cases maybe_dep)
    case None
    then have "add_dependency als entry st = (names1, g1)"
      by (simp add: add_dependency_def st entry ins1)
    moreover have "build_inv (processed @ [entry]) als (names1, g1)"
      using p1 inv(4,5) None
      by (auto simp: build_inv_def entry resolved_dependencies_snoc)
    ultimately show ?thesis by simp
  next
    case (Some dep)
    obtain j names2 g2 where ins2: "index_or_insert (resolve_alias dep als) (names1, g1) = (j, names2, g2)"
      by (cases "index_or_insert (resolve_alias dep als) (names1, g1)") auto
    from p1 have inv1: "distinct names1" "length g1 = length names1" "graph_wf g1" by auto
    note p2 = index_or_insert_props [OF inv1 ins2]
    from p1 p2 have k: "k < length g2" "names2 ! k = name" and j: "j < length g2"
      "names2 ! j = resolve_alias dep als"
      by auto
    from p2 have wf2: "graph_wf g2" by simp
    have res: "add_dependency als entry st = (names2, add_edge j k g2)"
      using Some by (simp add: add_dependency_def st entry ins1 ins2)
    have "name_edges names2 (add_edge j k g2) = insert (resolve_alias dep als, name) (name_edges names2 g2)"
      unfolding name_edges_def add_edge_props(1) [OF wf2 j(1) k(1)] using k(2) j(2) by simp
    moreover have "name_edges names2 g2 = resolved_dependencies processed als"
      using p1 p2 inv(4) by simp
    ultimately have "name_edges names2 (add_edge j k g2) = resolved_dependencies (processed @ [entry]) als"
      by (simp add: entry Some resolved_dependencies_snoc)
    moreover have "fst ` set (processed @ [entry]) \<subseteq> set names2"
      using p1 p2 inv(5) by (auto simp: entry)
    ultimately have "build_inv (processed @ [entry]) als (names2, add_edge j k g2)"
      using p2 add_edge_props(2,3) [OF wf2 j(1) k(1)] by (simp add: build_inv_def)
    with res show ?thesis by simp
  qed
qed

lemma build_graph_inv: "build_inv deps als (build_graph deps als)"
proof (induction deps rule: rev_induct)
  case Nil
  show ?case
    by (simp add: build_graph_def build_inv_def graph_wf_def name_edges_def graph_edges_def
        resolved_dependencies_def List.map_filter_def)
next
  case (snoc entry deps)
  have "build_graph (deps @ [entry]) als = add_dependency als entry (build_graph deps als)"
    by (simp add: build_graph_def)
  with add_dependency_inv [OF snoc] show ?case by simp
qed

lemma trancl_names:
  "(a, b) \<in> (graph_edges g)\<^sup>+ \<Longrightarrow> (names ! a, names ! b) \<in> (name_edges names g)\<^sup>+"
proof (induction rule: trancl_induct)
  case (base b)
  then show ?case by (auto simp: name_edges_def intro!: r_into_trancl)
next
  case (step b c)
  from step(2) have "(names ! b, names ! c) \<in> name_edges names g"
    by (auto simp: name_edges_def)
  with step(3) show ?case by (rule trancl_into_trancl)
qed

lemma trancl_indexes:
  assumes "distinct names" and "length g = length names" and "graph_wf g"
  shows "(x, y) \<in> (name_edges names g)\<^sup>+ \<Longrightarrow>
     \<exists>a b. a < length names \<and> b < length names \<and> x = names ! a \<and> y = names ! b
           \<and> (a, b) \<in> (graph_edges g)\<^sup>+"
proof (induction rule: trancl_induct)
  case (base y)
  then obtain a b where "(a, b) \<in> graph_edges g" "x = names ! a" "y = names ! b"
    by (auto simp: name_edges_def)
  moreover from this assms have "a < length names" "b < length names"
    by (auto simp: graph_edges_def graph_wf_def)
  ultimately show ?case by blast
next
  case (step y z)
  from step(3) obtain a b where ab: "a < length names" "b < length names" "x = names ! a"
    "y = names ! b" "(a, b) \<in> (graph_edges g)\<^sup>+" by blast
  from step(2) obtain b' c where bc: "(b', c) \<in> graph_edges g" "y = names ! b'" "z = names ! c"
    by (auto simp: name_edges_def)
  with assms have lt: "b' < length names" "c < length names"
    by (auto simp: graph_edges_def graph_wf_def)
  from ab(2,4) bc(2) lt(1) assms(1) have "b = b'"
    by (simp add: nth_eq_iff_index_eq)
  with ab(5) bc(1) have "(a, c) \<in> (graph_edges g)\<^sup>+" by auto
  with ab(1,3) lt(2) bc(3) show ?case by blast
qed

lemma acyclic_name_edges:
  assumes "distinct names" and "length g = length names" and "graph_wf g"
  shows "acyclic (name_edges names g) = acyclic (graph_edges g)"
proof
  assume ac: "acyclic (name_edges names g)"
  show "acyclic (graph_edges g)"
    unfolding acyclic_def
  proof (rule ccontr)
    assume "\<not> (\<forall>x. (x, x) \<notin> (graph_edges g)\<^sup>+)"
    then obtain a where "(a, a) \<in> (graph_edges g)\<^sup>+" by blast
    from trancl_names [OF this] ac show False by (auto simp: acyclic_def)
  qed
next
  assume ac: "acyclic (graph_edges g)"
  show "acyclic (name_edges names g)"
    unfolding acyclic_def
  proof (rule ccontr)
    assume "\<not> (\<forall>x. (x, x) \<notin> (name_edges names g)\<^sup>+)"
    then obtain x where "(x, x) \<in> (name_edges names g)\<^sup>+" by blast
    from trancl_indexes [OF assms this] obtain a b where
      ab: "a < length names" "b < length names" "x = names ! a" "x = names ! b"
      "(a, b) \<in> (graph_edges g)\<^sup>+" by blast
    from ab(1-4) assms(1) have "a = b" by (simp add: nth_eq_iff_index_eq)
    with ab(5) ac show False by (auto simp: acyclic_def)
  qed
qed

lemma all_ok_map_Inr: "(\<And>x. x \<in> set xs \<Longrightarrow> f x = Inr (h x)) \<Longrightarrow> all_ok (map f xs) = Inr (map h xs)"
  by (induction xs) auto

lemma resolved_dependencies_member:
  "(name, Some dep) \<in> set deps \<Longrightarrow> (resolve_alias dep als, name) \<in> resolved_dependencies deps als"
  by (force simp: resolved_dependencies_def List.map_filter_def image_iff)

lemma is_key_iff: "(map_of deps name \<noteq> None) = (name \<in> fst ` set deps)"
  by (simp add: map_of_eq_None_iff)

text \<open>
  Claim C2.  When the dependency relation with the aliases resolved is acyclic,
  \<open>topological_sort_with_aliases\<close> returns an order: it lists every value name once,
  and every name whose resolved dependency is itself a value name comes after that
  dependency.  When the relation has a cycle the call fails with the \<open>AttributeCycle\<close>
  error, which carries every entry of the dependency map.
\<close>

theorem topological_sort_with_aliases_correct:
  "(acyclic (resolved_dependencies deps als) \<longrightarrow>
      (\<exists>order. topological_sort_with_aliases deps als = Inr order
         \<and> set order = fst ` set deps \<and> distinct order
         \<and> (\<forall>(name, maybe_dep) \<in> set deps. \<forall>dep.
               maybe_dep = Some dep \<and> resolve_alias dep als \<in> fst ` set deps \<longrightarrow>
               (\<exists>xs ys zs. order = xs @ resolve_alias dep als # ys @ name # zs))))
 \<and> (\<not> acyclic (resolved_dependencies deps als) \<longrightarrow>
      topological_sort_with_aliases deps als = Inl (AttributeCycle deps))"
proof -
  obtain names g where bg: "build_graph deps als = (names, g)"
    by (cases "build_graph deps als")
  from build_graph_inv [of deps als] have inv: "distinct names" "length g = length names"
    "graph_wf g" "name_edges names g = resolved_dependencies deps als" "fst ` set deps \<subseteq> set names"
    by (simp_all add: build_inv_def bg)
  have ac_iff: "acyclic (resolved_dependencies deps als) = acyclic (graph_edges g)"
    using acyclic_name_edges [OF inv(1,2,3)] inv(4) by simp
  let ?P = "\<lambda>name. map_of deps name \<noteq> None"
  let ?f = "\<lambda>index. names ! index"
  show ?thesis
  proof (intro conjI impI)
    assume "acyclic (resolved_dependencies deps als)"
    then have ac: "acyclic (graph_edges g)" by (simp add: ac_iff)
    from topological_sort_done [OF inv(3)] topological_sort_acyclic [OF inv(3) ac]
    obtain order where ts: "topological_sort g = Inr order" by auto
    from topological_sort_sound [OF inv(3) ts]
    have t: "topo_ordered g order" "distinct order" "set order = {..< length g}" by auto
    have "all_ok (map (\<lambda>index. if index < length names then Inr (names ! index)
                                  else Inl AssertionFailed) order) = Inr (map ?f order)"
      using t(3) inv(2) by (intro all_ok_map_Inr) auto
    with ts have res: "topological_sort_with_aliases deps als = Inr (filter ?P (map ?f order))"
      by (simp add: topological_sort_with_aliases_def bg)
    have "set (map ?f order) = ?f ` {..< length names}"
      using t(3) inv(2) by simp
    also have "\<dots> = set names"
      by (auto simp: in_set_conv_nth)
    finally have names_eq: "set (map ?f order) = set names" .
    have "set (filter ?P (map ?f order)) = {name \<in> set names. name \<in> fst ` set deps}"
      by (simp only: set_filter is_key_iff names_eq)
    with inv(5) have set_eq: "set (filter ?P (map ?f order)) = fst ` set deps"
      by blast
    have "inj_on ?f (set order)"
      using inv(1,2) t(3) by (auto simp: inj_on_def nth_eq_iff_index_eq)
    with t(2) have dist: "distinct (filter ?P (map ?f order))"
      by (simp add: distinct_map)
    have before: "\<exists>xs ys zs. filter ?P (map ?f order) = xs @ resolve_alias dep als # ys @ name # zs"
      if mem: "(name, Some dep) \<in> set deps" and key: "resolve_alias dep als \<in> fst ` set deps"
      for name dep
    proof -
      from resolved_dependencies_member [OF mem, of als] inv(4)
      have "(resolve_alias dep als, name) \<in> name_edges names g" by simp
      then obtain u v where uv: "(u, v) \<in> graph_edges g" "names ! u = resolve_alias dep als"
        "names ! v = name"
        unfolding name_edges_def by force
      then have "u \<in> set order" "v \<in> set (g ! u)" using t(3) by (auto simp: graph_edges_def)
      from topo_split [OF t(1,2) this] obtain xs ys zs where o: "order = xs @ u # ys @ v # zs"
        by blast
      from mem have "name \<in> fst ` set deps" by force
      with key uv(2,3) have "?P (?f u)" "?P (?f v)" by (simp_all only: is_key_iff)
      then have "filter ?P (map ?f order) =
          filter ?P (map ?f xs) @ resolve_alias dep als # filter ?P (map ?f ys) @ name # filter ?P (map ?f zs)"
        unfolding o using uv(2,3) by simp
      then show ?thesis by blast
    qed
    have all_before: "\<forall>(name, maybe_dep) \<in> set deps. \<forall>dep.
               maybe_dep = Some dep \<and> resolve_alias dep als \<in> fst ` set deps \<longrightarrow>
               (\<exists>xs ys zs. filter ?P (map ?f order) = xs @ resolve_alias dep als # ys @ name # zs)"
    proof (intro ballI)
      fix entry assume entry: "entry \<in> set deps"
      obtain name maybe_dep where eq: "entry = (name, maybe_dep)" by (cases entry)
      have "\<exists>xs ys zs. filter ?P (map ?f order) = xs @ resolve_alias dep als # ys @ name # zs"
        if "maybe_dep = Some dep \<and> resolve_alias dep als \<in> fst ` set deps" for dep
        using before [of name dep] that entry unfolding eq by blast
      then show "case entry of (name, maybe_dep) \<Rightarrow> \<forall>dep.
               maybe_dep = Some dep \<and> resolve_alias dep als \<in> fst ` set deps \<longrightarrow>
               (\<exists>xs ys zs. filter ?P (map ?f order) = xs @ resolve_alias dep als # ys @ name # zs)"
        unfolding eq prod.case by blast
    qed
    show "\<exists>order. topological_sort_with_aliases deps als = Inr order
         \<and> set order = fst ` set deps \<and> distinct order
         \<and> (\<forall>(name, maybe_dep) \<in> set deps. \<forall>dep.
               maybe_dep = Some dep \<and> resolve_alias dep als \<in> fst ` set deps \<longrightarrow>
               (\<exists>xs ys zs. order = xs @ resolve_alias dep als # ys @ name # zs))"
      using res set_eq dist all_before by (intro exI [of _ "filter ?P (map ?f order)"] conjI)
  next
    assume "\<not> acyclic (resolved_dependencies deps als)"
    then have nac: "\<not> acyclic (graph_edges g)" by (simp add: ac_iff)
    from topological_sort_done [OF inv(3)] topological_sort_Inr_acyclic [OF inv(3)] nac
    have "topological_sort g = Inl NotADag" by auto
    then show "topological_sort_with_aliases deps als = Inl (AttributeCycle deps)"
      by (simp add: topological_sort_with_aliases_def bg)
  qed
qed

lemma tsort_example_sorted:
  "topological_sort_with_aliases
     [(''depth'', Some ''h''), (''height'', Some ''w''), (''width'', None)]
     [(''d'', ''depth''), (''h'', ''height''), (''w'', ''width'')]
   = Inr [''width'', ''height'', ''depth'']"
  by code_simp

lemma tsort_example_cycle:
  "topological_sort_with_aliases
     [(''height'', Some ''w''), (''width'', Some ''height'')]
     [(''h'', ''height''), (''w'', ''width'')]
   = Inl (AttributeCycle [(''height'', Some ''w''), (''width'', Some ''height'')])"
  by code_simp

text \<open>
  Depth depends on height and height on width: the order is width, height, depth.
  Height depends on width and width on height: the call fails.  The first relation is
  acyclic and the second is not.
\<close>

theorem topological_sort_with_aliases_correct_witness:
  "acyclic (resolved_dependencies
     [(''depth'', Some ''h''), (''height'', Some ''w''), (''width'', None)]
     [(''d'', ''depth''), (''h'', ''height''), (''w'', ''width'')])
 \<and> topological_sort_with_aliases
     [(''depth'', Some ''h''), (''height'', Some ''w''), (''width'', None)]
     [(''d'', ''depth''), (''h'', ''height''), (''w'', ''width'')]
   = Inr [''width'', ''height'', ''depth'']
 \<and> \<not> acyclic (resolved_dependencies
     [(''height'', Some ''w''), (''width'', Some ''height'')]
     [(''h'', ''height''), (''w'', ''width'')])
 \<and> topological_sort_with_aliases
     [(''height'', Some ''w''), (''width'', Some ''height'')]
     [(''h'', ''height''), (''w'', ''width'')]
   = Inl (AttributeCycle [(''height'', Some ''w''), (''width'', Some ''height'')])"
  using topological_sort_with_aliases_correct
    [where deps = "[(''depth'', Some ''h''), (''height'', Some ''w''), (''width'', None)]"
       and als = "[(''d'', ''depth''), (''h'', ''height''), (''w'', ''width'')]"]
    topological_sort_with_aliases_correct
    [where deps = "[(''height'', Some ''w''), (''width'', Some ''height'')]"
       and als = "[(''h'', ''height''), (''w'', ''width'')]"]
  unfolding tsort_example_sorted tsort_example_cycle
  by blast

end
